theory Spec2Isabelle
  imports Main "HOL-Library.AList" "HOL-Library.Sublist" "HOL-Library.Word"
begin

unbundle bit_operations_syntax

section \<open>Virtual disk for MMC partitions over a U-Boot serial console\<close>

text \<open>
  A shallow embedding of \<^verbatim>\<open>u-boot-uart-mmc-vdisk.py\<close> (class \<^verbatim>\<open>UbootMmc\<close>).
  Python integers are \<^typ>\<open>int\<close>, text lines are \<^typ>\<open>string\<close>, the raw bytes
  returned by \<^verbatim>\<open>unhexlify\<close> are lists of 8-bit words, dictionaries are maps, and every
  exception is a value of the type \<open>error\<close> returned on the left of a sum.
  The \<^verbatim>\<open>print\<close> statements of the source only write to standard output and are
  left out.
\<close>

subsection \<open>Errors\<close>

text \<open>
  The four \<^verbatim>\<open>RuntimeError\<close> messages of the source, in source order. The message
  \<^verbatim>\<open>'Expected address 0x%x, got address 0x%x' % (nextaddr, thisaddr)\<close> keeps its two
  arguments.
\<close>

datatype runtime_msg =
    NoBlocksize
  | NoPartitions
  | AddressMismatch int int
  | NoMemoryOutput

datatype errno = ENOENT | EACCES

datatype error =
    RuntimeError runtime_msg
  | AttributeError
  | ValueError
  | TypeError
  | UnboundLocalError
  | ZeroDivisionError
  | FuseOSError errno

type_synonym bytes = "8 word list"

subsection \<open>Character classes and number parsing\<close>

definition newline :: char where
  "newline = CHR 0x0A"

text \<open>\<^verbatim>\<open>\s\<close> on a pattern without the UNICODE flag, and C's \<^verbatim>\<open>isspace\<close>.\<close>

definition isspace :: "char \<Rightarrow> bool" where
  "isspace c = (c \<in> set [CHR '' '', CHR 0x09, CHR 0x0A, CHR 0x0B, CHR 0x0C, CHR 0x0D])"

definition isdigit :: "char \<Rightarrow> bool" where
  "isdigit c = (c \<in> set ''0123456789'')"

text \<open>The class \<^verbatim>\<open>[0-9a-f]\<close>.\<close>

definition ishex :: "char \<Rightarrow> bool" where
  "ishex c = (c \<in> set ''0123456789abcdef'')"

fun index_of :: "char \<Rightarrow> string \<Rightarrow> nat" where
  "index_of c [] = 0"
| "index_of c (d # ds) = (if c = d then 0 else Suc (index_of c ds))"

definition digit_val :: "char \<Rightarrow> int" where
  "digit_val c = int (index_of c ''0123456789abcdef'')"

text \<open>The value of a digit string in a base, most significant digit first.\<close>

definition digits_val :: "int \<Rightarrow> string \<Rightarrow> int" where
  "digits_val base ds = foldl (\<lambda>a c. base * a + digit_val c) 0 ds"

text \<open>
  \<^verbatim>\<open>int(s)\<close> of Python 2 on a byte string, base 10: leading white space, an optional
  sign, white space again (\<^verbatim>\<open>PyOS_strtol\<close> skips it after the sign), at least one
  decimal digit, trailing white space, and nothing else. \<open>None\<close> is \<^verbatim>\<open>ValueError\<close>.
\<close>

definition py_int :: "string \<Rightarrow> int option" where
  "py_int s =
     (let s1 = dropWhile isspace s;
          sign = (case s1 of [] \<Rightarrow> 1 | c # _ \<Rightarrow> if c = CHR ''-'' then - 1 else (1::int));
          s2 = (case s1 of [] \<Rightarrow> [] | c # cs \<Rightarrow> if c = CHR ''+'' \<or> c = CHR ''-'' then cs else s1);
          s3 = dropWhile isspace s2;
          ds = takeWhile isdigit s3;
          rest = dropWhile isspace (dropWhile isdigit s3)
      in if ds = [] \<or> rest \<noteq> [] then None else Some (sign * digits_val 10 ds))"

text \<open>Python slicing \<^verbatim>\<open>xs[i:j]\<close>, \<^verbatim>\<open>xs[i:]\<close> and \<^verbatim>\<open>xs[:j]\<close>: a negative index counts
  from the end, and every index is clamped to the sequence.\<close>

definition py_clamp :: "nat \<Rightarrow> int \<Rightarrow> nat" where
  "py_clamp n i = (if i < 0 then nat (int n + i) else min (nat i) n)"

definition py_slice :: "'a list \<Rightarrow> int \<Rightarrow> int \<Rightarrow> 'a list" where
  "py_slice xs i j =
     (let a = py_clamp (length xs) i; b = py_clamp (length xs) j in take (b - a) (drop a xs))"

definition py_slice_from :: "'a list \<Rightarrow> int \<Rightarrow> 'a list" where
  "py_slice_from xs i = drop (py_clamp (length xs) i) xs"

definition py_slice_to :: "'a list \<Rightarrow> int \<Rightarrow> 'a list" where
  "py_slice_to xs j = take (py_clamp (length xs) j) xs"

subsection \<open>The two line patterns\<close>

text \<open>
  \<^verbatim>\<open>\s*\<close> followed by a continuation \<open>k\<close>: some number of leading white-space
  characters is skipped and \<open>k\<close> accepts what is left.
\<close>

fun spaces_then :: "(string \<Rightarrow> bool) \<Rightarrow> string \<Rightarrow> bool" where
  "spaces_then k [] = k []"
| "spaces_then k (c # cs) = ((isspace c \<and> spaces_then k cs) \<or> k (c # cs))"

text \<open>\<^verbatim>\<open>$\<close> matches at the end of the string and just before a newline that ends it.\<close>

definition at_end :: "string \<Rightarrow> bool" where
  "at_end r = (r = [] \<or> r = [newline])"

text \<open>\<^verbatim>\<open>.*$\<close>: the dot takes anything but a newline.\<close>

definition dotstar_end :: "string \<Rightarrow> bool" where
  "dotstar_end r = at_end (dropWhile (\<lambda>c. c \<noteq> newline) r)"

text \<open>
  The partition row pattern
  \<^verbatim>\<open>^\s*(?P<number>\d+)\s+(?P<start>\d+)\s+(?P<length>\d+)\s+.*$\<close>
  applied with \<^verbatim>\<open>match\<close>. Digits and white space are disjoint classes, so each
  \<^verbatim>\<open>\d+\<close> and each of the first three white-space runs can only take its whole run; only
  the last \<^verbatim>\<open>\s+\<close> may give characters back to \<^verbatim>\<open>.*\<close>. The result is the three groups
  after \<^verbatim>\<open>int\<close>.
\<close>

definition ptrn_part :: "string \<Rightarrow> (int \<times> int \<times> int) option" where
  "ptrn_part line =
     (let s0 = dropWhile isspace line;
          d1 = takeWhile isdigit s0; s1 = dropWhile isdigit s0;
          w1 = takeWhile isspace s1; s2 = dropWhile isspace s1;
          d2 = takeWhile isdigit s2; s3 = dropWhile isdigit s2;
          w2 = takeWhile isspace s3; s4 = dropWhile isspace s3;
          d3 = takeWhile isdigit s4; s5 = dropWhile isdigit s4
      in if d1 \<noteq> [] \<and> w1 \<noteq> [] \<and> d2 \<noteq> [] \<and> w2 \<noteq> [] \<and> d3 \<noteq> [] \<and>
            (case s5 of [] \<Rightarrow> False | c # cs \<Rightarrow> isspace c \<and> spaces_then dotstar_end cs)
         then Some (digits_val 10 d1, digits_val 10 d2, digits_val 10 d3)
         else None)"

text \<open>\<^verbatim>\<open>.{16}$\<close>: sixteen characters other than newline, then the end.\<close>

definition dot16_end :: "string \<Rightarrow> bool" where
  "dot16_end u = (16 \<le> length u \<and> newline \<notin> set (take 16 u) \<and> at_end (drop 16 u))"

text \<open>\<^verbatim>\<open>([0-9a-f ]{47})\s*.{16}$\<close>: the group is the first 47 characters.\<close>

definition group2_rest :: "string \<Rightarrow> string option" where
  "group2_rest r =
     (if 47 \<le> length r \<and> list_all (\<lambda>c. ishex c \<or> c = CHR '' '') (take 47 r) \<and>
         spaces_then dot16_end (drop 47 r)
      then Some (take 47 r) else None)"

text \<open>
  \<^verbatim>\<open>\s*\<close> before the second group is greedy and a space also belongs to the group's
  class, so the engine tries the longest white-space prefix first and gives characters
  back one at a time.
\<close>

fun spaces_group2 :: "string \<Rightarrow> string option" where
  "spaces_group2 [] = group2_rest []"
| "spaces_group2 (c # cs) =
     (if isspace c
      then (case spaces_group2 cs of Some g \<Rightarrow> Some g | None \<Rightarrow> group2_rest (c # cs))
      else group2_rest (c # cs))"

text \<open>
  The memory dump pattern \<^verbatim>\<open>^([0-9a-f]{8}):\s*([0-9a-f ]{47})\s*.{16}$\<close>; the result
  is \<^verbatim>\<open>(match.group(1), match.group(2))\<close>.
\<close>

definition ptrn_dump :: "string \<Rightarrow> (string \<times> string) option" where
  "ptrn_dump line =
     (if 9 \<le> length line \<and> list_all ishex (take 8 line) \<and> line ! 8 = CHR '':''
      then map_option (\<lambda>g. (take 8 line, g)) (spaces_group2 (drop 9 line))
      else None)"

text \<open>
  \<^verbatim>\<open>unhexlify\<close> on a string of hexadecimal digits: Python 2 raises
  \<^verbatim>\<open>TypeError\<close> on an odd length.
\<close>

fun unhexlify :: "string \<Rightarrow> error + bytes" where
  "unhexlify [] = Inr []"
| "unhexlify [c] = Inl TypeError"
| "unhexlify (a # b # cs) =
     (case unhexlify cs of
        Inl e \<Rightarrow> Inl e
      | Inr bs \<Rightarrow> Inr (word_of_int (16 * digit_val a + digit_val b) # bs))"

subsection \<open>The serial console\<close>

text \<open>
  The lines the source writes to \<^verbatim>\<open>self.dev\<close>. \<open>MmcRead s n\<close> is
  \<^verbatim>\<open>'mmc read 90000000 %x %x\n' % (s, n)\<close> and \<open>MdB n\<close> is
  \<^verbatim>\<open>'md.b 90000000 %x\n' % n\<close>.
\<close>

datatype command = MmcInfo | MmcPart | MmcRead int int | MdB int

text \<open>
  The console is what it will answer and what it has been sent: \<open>replies\<close> holds the
  lines each coming \<^verbatim>\<open>readlines()\<close> call returns, \<open>written\<close> the commands written so
  far. A console with nothing left to say answers with no lines (the read times out).
\<close>

record console =
  replies :: "string list list"
  written :: "command list"

definition dev_write :: "command \<Rightarrow> console \<Rightarrow> console" where
  "dev_write c d = d\<lparr>written := written d @ [c]\<rparr>"

definition dev_readlines :: "console \<Rightarrow> string list \<times> console" where
  "dev_readlines d =
     (case replies d of [] \<Rightarrow> ([], d) | t # ts \<Rightarrow> (t, d\<lparr>replies := ts\<rparr>))"

subsection \<open>The object state\<close>

text \<open>
  A partition is the dictionary with the keys number, start and length. The partition
  table \<^verbatim>\<open>self.partitions\<close> is a dictionary from partition numbers to partitions, kept
  as an association list with one entry per key: \<open>map_of\<close> looks a number up and the
  empty list is the empty dictionary.
\<close>

record partition =
  part_number :: int
  part_start :: int
  part_length :: int

record ubootmmc =
  dev :: console
  block_cache :: "int \<rightharpoonup> bytes"
  next_fd :: int
  block_size :: int
  partitions :: "(int \<times> partition) list"

subsection \<open>Serial code\<close>

text \<open>
  The first loop of \<^verbatim>\<open>read_mmc_partitions\<close>. The attribute \<^verbatim>\<open>self.block_size\<close> does
  not exist until a line sets it: \<open>None\<close> is the missing attribute.
  \<^verbatim>\<open>int(re.sub('[^0-9]', '', line))\<close> raises \<^verbatim>\<open>ValueError\<close> on a line without digits.
\<close>

fun info_loop :: "int option \<Rightarrow> string list \<Rightarrow> error + int option" where
  "info_loop bs [] = Inr bs"
| "info_loop bs (line # lines) =
     (if prefix ''Rd Block Len:'' line
      then (case filter isdigit line of
              [] \<Rightarrow> Inl ValueError
            | ds \<Rightarrow> info_loop (Some (digits_val 10 ds)) lines)
      else info_loop bs lines)"

text \<open>The second loop: a later row with the same number replaces the earlier one.\<close>

fun part_loop :: "(int \<times> partition) list \<Rightarrow> string list \<Rightarrow> (int \<times> partition) list" where
  "part_loop ps [] = ps"
| "part_loop ps (line # lines) =
     (case ptrn_part line of
        None \<Rightarrow> part_loop ps lines
      | Some (n, s, l) \<Rightarrow>
          part_loop
            (AList.update n \<lparr>part_number = n, part_start = s, part_length = l\<rparr> ps) lines)"

text \<open>
  \<^verbatim>\<open>read_mmc_partitions\<close>, called once from \<^verbatim>\<open>__init__\<close>: it returns the block size,
  the partition table and the console. \<^verbatim>\<open>not self.block_size\<close> raises
  \<^verbatim>\<open>AttributeError\<close> when no line has set the attribute.
\<close>

definition read_mmc_partitions ::
  "console \<Rightarrow> error + (int \<times> (int \<times> partition) list \<times> console)" where
  "read_mmc_partitions d =
     (case dev_readlines (dev_write MmcInfo d) of (info, d1) \<Rightarrow>
        (case info_loop None info of
           Inl e \<Rightarrow> Inl e
         | Inr None \<Rightarrow> Inl AttributeError
         | Inr (Some bs) \<Rightarrow>
             if bs = 0 then Inl (RuntimeError NoBlocksize)
             else (case dev_readlines (dev_write MmcPart d1) of (rows, d2) \<Rightarrow>
                     (let ps = part_loop [] rows
                      in if length ps = 0 then Inl (RuntimeError NoPartitions)
                         else Inr (bs, ps, d2)))))"

text \<open>\<^verbatim>\<open>UbootMmc.__init__\<close>.\<close>

definition init :: "console \<Rightarrow> error + ubootmmc" where
  "init d =
     (case read_mmc_partitions d of
        Inl e \<Rightarrow> Inl e
      | Inr (bs, ps, d') \<Rightarrow>
          Inr \<lparr>dev = d', block_cache = Map.empty, next_fd = 0, block_size = bs,
               partitions = ps\<rparr>)"

text \<open>
  \<^verbatim>\<open>main\<close>: the server object is built first, and only then is it handed to \<^verbatim>\<open>FUSE\<close>
  to serve requests. An exception in the constructor ends the process.
\<close>

datatype outcome = Aborted error | Serving ubootmmc

definition main :: "console \<Rightarrow> outcome" where
  "main d = (case init d of Inl e \<Rightarrow> Aborted e | Inr server \<Rightarrow> Serving server)"

text \<open>The loop of \<^verbatim>\<open>read_mmc_blocks\<close> over the lines of the dump.\<close>

fun dump_loop :: "int \<Rightarrow> string \<Rightarrow> string list \<Rightarrow> error + string" where
  "dump_loop nextaddr blockdata [] = Inr blockdata"
| "dump_loop nextaddr blockdata (line # lines) =
     (case ptrn_dump line of
        None \<Rightarrow> dump_loop nextaddr blockdata lines
      | Some (g1, g2) \<Rightarrow>
          (let thisaddr = digits_val 16 g1
           in if thisaddr \<noteq> nextaddr
              then Inl (RuntimeError (AddressMismatch nextaddr thisaddr))
              else dump_loop (nextaddr + 0x10)
                     (blockdata @ filter (\<lambda>c. \<not> isspace c) g2) lines))"

definition read_mmc_blocks :: "ubootmmc \<Rightarrow> int \<Rightarrow> int \<Rightarrow> (error + bytes) \<times> ubootmmc" where
  "read_mmc_blocks st start len =
     (if len = 0 then (Inr [], st)
      else
        (case dev_readlines
                (dev_write (MdB (len * block_size st))
                   (dev_write (MmcRead start len) (dev st))) of
           (lines, d) \<Rightarrow>
             (case dump_loop 0x90000000 [] lines of
                Inl e \<Rightarrow> (Inl e, st\<lparr>dev := d\<rparr>)
              | Inr blockdata \<Rightarrow>
                  if blockdata = [] then (Inl (RuntimeError NoMemoryOutput), st\<lparr>dev := d\<rparr>)
                  else (unhexlify blockdata, st\<lparr>dev := d\<rparr>))))"

subsection \<open>Caching logic\<close>

text \<open>The loop of \<^verbatim>\<open>read_and_cache_mmc_blocks\<close> over \<^verbatim>\<open>range(start, start + length)\<close>.\<close>

fun cache_loop ::
  "int \<Rightarrow> int \<Rightarrow> bytes \<Rightarrow> int list \<Rightarrow> (int \<rightharpoonup> bytes) \<Rightarrow> (int \<rightharpoonup> bytes)" where
  "cache_loop start bs read_data [] cache = cache"
| "cache_loop start bs read_data (read_block # rest) cache =
     (let start_index = (read_block - start) * bs;
          end_index = start_index + bs
      in cache_loop start bs read_data rest
           (cache(read_block \<mapsto> py_slice read_data start_index end_index)))"

definition read_and_cache_mmc_blocks ::
  "ubootmmc \<Rightarrow> int \<Rightarrow> int \<Rightarrow> (error + bytes) \<times> ubootmmc" where
  "read_and_cache_mmc_blocks st start len =
     (if len = 0 then (Inr [], st)
      else
        (case read_mmc_blocks st start len of
           (Inl e, st') \<Rightarrow> (Inl e, st')
         | (Inr read_data, st') \<Rightarrow>
             (Inr read_data,
              st'\<lparr>block_cache :=
                    cache_loop start (block_size st') read_data [start..start + len - 1]
                      (block_cache st')\<rparr>)))"

text \<open>
  The loop of \<^verbatim>\<open>get_mmc_blocks\<close>. The statement under the cache hit with a pending run is
  \<^verbatim>\<open>toReturn += self.read_and_cache_mmc_blocks(...)\<close>: \<^verbatim>\<open>toReturn\<close> is a local name
  that is never bound (the result is collected in \<^verbatim>\<open>to_return\<close>), an augmented
  assignment loads its target before it evaluates the right-hand side, and so the
  statement raises \<^verbatim>\<open>UnboundLocalError\<close> before the call is made.
\<close>

fun get_loop ::
  "(int \<rightharpoonup> bytes) \<Rightarrow> int list \<Rightarrow> bytes \<Rightarrow> int option \<Rightarrow> error + (bytes \<times> int option)" where
  "get_loop cache [] to_return read_start_block = Inr (to_return, read_start_block)"
| "get_loop cache (block # rest) to_return read_start_block =
     (case cache block of
        Some cached \<Rightarrow>
          (case read_start_block of
             Some r \<Rightarrow> Inl UnboundLocalError
           | None \<Rightarrow> get_loop cache rest (to_return @ cached) None)
      | None \<Rightarrow>
          (case read_start_block of
             None \<Rightarrow> get_loop cache rest to_return (Some block)
           | Some r \<Rightarrow> get_loop cache rest to_return (Some r)))"

definition get_mmc_blocks :: "ubootmmc \<Rightarrow> int \<Rightarrow> int \<Rightarrow> (error + bytes) \<times> ubootmmc" where
  "get_mmc_blocks st start len =
     (if len = 0 then (Inr [], st)
      else
        (case get_loop (block_cache st) [start..start + len - 1] [] None of
           Inl e \<Rightarrow> (Inl e, st)
         | Inr (to_return, None) \<Rightarrow> (Inr to_return, st)
         | Inr (to_return, Some r) \<Rightarrow>
             (case read_and_cache_mmc_blocks st r (start + len - r) of
                (Inl e, st') \<Rightarrow> (Inl e, st')
              | (Inr fetched, st') \<Rightarrow> (Inr (to_return @ fetched), st'))))"

subsection \<open>FUSE code\<close>

record stat =
  st_mode :: int
  st_nlink :: int
  st_size :: int
  st_ctime :: int
  st_mtime :: int
  st_atime :: int

text \<open>\<^verbatim>\<open>stat.S_IFDIR\<close> is 0o040000, \<^verbatim>\<open>stat.S_IFREG\<close> is 0o100000 and the file type
  mask \<^verbatim>\<open>S_IFMT\<close> is 0o170000; the permission bits 0o555 and 0o444 are 365 and 292.\<close>

definition S_IFDIR :: int where "S_IFDIR = 16384"
definition S_IFREG :: int where "S_IFREG = 32768"
definition S_IFMT :: int where "S_IFMT = 61440"

definition S_ISDIR :: "int \<Rightarrow> bool" where
  "S_ISDIR m = (m AND S_IFMT = S_IFDIR)"

definition S_ISREG :: "int \<Rightarrow> bool" where
  "S_ISREG m = (m AND S_IFMT = S_IFREG)"

text \<open>
  \<^verbatim>\<open>getattr\<close>. \<^verbatim>\<open>ValueError\<close> from \<^verbatim>\<open>int(path[1:])\<close> is caught and becomes
  \<^verbatim>\<open>ENOENT\<close>. The state is only read.
\<close>

definition getattr :: "ubootmmc \<Rightarrow> string \<Rightarrow> error + stat" where
  "getattr st path =
     (if path = ''/''
      then Inr \<lparr>st_mode = S_IFDIR OR 365, st_nlink = 2, st_size = 0,
                st_ctime = 0, st_mtime = 0, st_atime = 0\<rparr>
      else
        (case py_int (drop 1 path) of
           None \<Rightarrow> Inl (FuseOSError ENOENT)
         | Some part_num \<Rightarrow>
             (case map_of (partitions st) part_num of
                None \<Rightarrow> Inl (FuseOSError ENOENT)
              | Some part \<Rightarrow>
                  Inr \<lparr>st_mode = S_IFREG OR 292, st_nlink = 1,
                       st_size = part_length part * block_size st,
                       st_ctime = 0, st_mtime = 0, st_atime = 0\<rparr>)))"

definition O_RDONLY :: int where "O_RDONLY = 0"
definition O_WRONLY :: int where "O_WRONLY = 1"
definition O_RDWR :: int where "O_RDWR = 2"

definition "open" :: "ubootmmc \<Rightarrow> string \<Rightarrow> int \<Rightarrow> (error + int) \<times> ubootmmc" where
  "open st path flags =
     (let accmode = O_RDONLY OR O_WRONLY OR O_RDWR
      in if flags AND accmode \<noteq> O_RDONLY then (Inl (FuseOSError EACCES), st)
         else (Inr (next_fd st + 1), st\<lparr>next_fd := next_fd st + 1\<rparr>))"

text \<open>
  \<^verbatim>\<open>read\<close>. The handler \<^verbatim>\<open>except ValueError\<close> encloses the whole body, the call of
  \<^verbatim>\<open>get_mmc_blocks\<close> included. \<^verbatim>\<open>//\<close> and \<^verbatim>\<open>%\<close> raise \<^verbatim>\<open>ZeroDivisionError\<close> on a
  block size of zero.
\<close>

definition read ::
  "ubootmmc \<Rightarrow> string \<Rightarrow> int \<Rightarrow> int \<Rightarrow> (error + bytes) \<times> ubootmmc" where
  "read st path sz offset =
     (case py_int (drop 1 path) of
        None \<Rightarrow> (Inl (FuseOSError ENOENT), st)
      | Some part_num \<Rightarrow>
          (case map_of (partitions st) part_num of
             None \<Rightarrow> (Inl (FuseOSError ENOENT), st)
           | Some part \<Rightarrow>
               if offset \<ge> part_length part * block_size st then (Inr [], st)
               else if block_size st = 0 then (Inl ZeroDivisionError, st)
               else
                 (let start_block = offset div block_size st + part_start part;
                      start_offset_from_block = offset mod block_size st;
                      end_byte = (if offset + sz > part_length part * block_size st
                                  then part_length part * block_size st else offset + sz);
                      end_block = (if end_byte mod block_size st > 0
                                   then end_byte div block_size st + part_start part + 1
                                   else end_byte div block_size st + part_start part);
                      block_length = end_block - start_block;
                      byte_length = end_byte - offset
                  in case get_mmc_blocks st start_block block_length of
                       (Inl e, st') \<Rightarrow>
                         (Inl (if e = ValueError then FuseOSError ENOENT else e), st')
                     | (Inr block_data, st') \<Rightarrow>
                         (Inr (py_slice_to (py_slice_from block_data start_offset_from_block)
                                 byte_length), st'))))"

subsection \<open>Request sequences and example states\<close>

text \<open>
  The handles returned by a sequence of \<^verbatim>\<open>open\<close> requests served one after the other,
  in order; a refused request returns none and the server goes on.
\<close>

fun opens :: "ubootmmc \<Rightarrow> (string \<times> int) list \<Rightarrow> int list" where
  "opens st [] = []"
| "opens st ((path, flags) # reqs) =
     (case open st path flags of
        (Inl e, st') \<Rightarrow> opens st' reqs
      | (Inr h, st') \<Rightarrow> h # opens st' reqs)"

text \<open>A server as the spec's end-to-end scenario has it after start-up: block size 512,
  one partition 8 starting at block 100 and four blocks long, nothing cached yet.\<close>

definition st0 :: ubootmmc where
  "st0 = \<lparr>dev = \<lparr>replies = [], written = []\<rparr>, block_cache = Map.empty, next_fd = 0,
         block_size = 512,
         partitions = [(8, \<lparr>part_number = 8, part_start = 100, part_length = 4\<rparr>)]\<rparr>"

text \<open>The bytes the cache holds for a list of blocks, in the order of the list; it is
  only read where every block of the list is cached.\<close>

definition cached_bytes :: "(int \<rightharpoonup> bytes) \<Rightarrow> int list \<Rightarrow> bytes" where
  "cached_bytes cache blocks = concat (map (\<lambda>b. the (cache b)) blocks)"

text \<open>
  Requests reaching the cache: a direct call of \<^verbatim>\<open>get_mmc_blocks\<close> and a FUSE
  \<^verbatim>\<open>read\<close>. An exception is reported to the caller and the server goes on with the
  state the request left.
\<close>

datatype request = GetBlocks int int | Read string int int

fun serve :: "ubootmmc \<Rightarrow> request \<Rightarrow> (error + bytes) \<times> ubootmmc" where
  "serve st (GetBlocks start len) = get_mmc_blocks st start len"
| "serve st (Read path sz offset) = read st path sz offset"

fun serve_all :: "ubootmmc \<Rightarrow> request list \<Rightarrow> ubootmmc" where
  "serve_all st [] = st"
| "serve_all st (rq # reqs) = serve_all (snd (serve st rq)) reqs"

text \<open>The commands a request added to the console's log.\<close>

definition new_commands :: "ubootmmc \<Rightarrow> ubootmmc \<Rightarrow> command list" where
  "new_commands st st' = drop (length (written (dev st))) (written (dev st'))"

text \<open>The blocks named by the \<^verbatim>\<open>mmc read\<close> commands of a log.\<close>

fun run_blocks :: "command list \<Rightarrow> int list" where
  "run_blocks [] = []"
| "run_blocks (MmcRead start len # cs) = [start..start + len - 1] @ run_blocks cs"
| "run_blocks (c # cs) = run_blocks cs"

text \<open>
  The blocks fetched from the console while a list of requests is served: the blocks of
  every run whose request returned, in order. (A fetch that raises stores nothing.)
\<close>

fun fetched_blocks :: "ubootmmc \<Rightarrow> request list \<Rightarrow> int list" where
  "fetched_blocks st [] = []"
| "fetched_blocks st (rq # reqs) =
     (case serve st rq of
        (Inl e, st') \<Rightarrow> fetched_blocks st' reqs
      | (Inr data, st') \<Rightarrow> run_blocks (new_commands st st') @ fetched_blocks st' reqs)"

text \<open>Three lines as \<^verbatim>\<open>md.b\<close> prints them, sixteen bytes each.\<close>

definition dump_line_0 :: string where
  "dump_line_0 =
     ''90000000: 00 01 02 03 04 05 06 07 08 09 0a 0b 0c 0d 0e 0f    ................''"

definition dump_line_1 :: string where
  "dump_line_1 =
     ''90000010: 10 11 12 13 14 15 16 17 18 19 1a 1b 1c 1d 1e 1f    ................''"

definition dump_line_2 :: string where
  "dump_line_2 =
     ''90000020: 20 21 22 23 24 25 26 27 28 29 2a 2b 2c 2d 2e 2f    ................''"

definition block_a :: bytes where
  "block_a = [0xa0, 0xa1, 0xa2, 0xa3, 0xa4, 0xa5, 0xa6, 0xa7,
              0xa8, 0xa9, 0xaa, 0xab, 0xac, 0xad, 0xae, 0xaf]"

text \<open>Blocks of two bytes, blocks 2 and 3 cached, a silent console.\<close>

definition st_23 :: ubootmmc where
  "st_23 = st0\<lparr>block_size := 2, block_cache := [2 \<mapsto> [0x20, 0x21], 3 \<mapsto> [0x30, 0x31]]\<rparr>"

text \<open>Blocks of sixteen bytes, block 100 cached, and a console that will answer the next
  command with one dump line.\<close>

definition st_16 :: ubootmmc where
  "st_16 = st0\<lparr>dev := \<lparr>replies = [[dump_line_0]], written = []\<rparr>, block_size := 16,
               block_cache := [100 \<mapsto> block_a]\<rparr>"

text \<open>Blocks of sixteen bytes, nothing cached, and a console that will answer the next
  command with two dump lines, whatever is asked.\<close>

definition st_over :: ubootmmc where
  "st_over = st0\<lparr>dev := \<lparr>replies = [[dump_line_0, dump_line_1]], written = []\<rparr>,
                 block_size := 16\<rparr>"

text \<open>The bytes of the first two dump lines.\<close>

definition bytes_0 :: bytes where
  "bytes_0 = [0x00, 0x01, 0x02, 0x03, 0x04, 0x05, 0x06, 0x07,
              0x08, 0x09, 0x0a, 0x0b, 0x0c, 0x0d, 0x0e, 0x0f]"

definition bytes_1 :: bytes where
  "bytes_1 = [0x10, 0x11, 0x12, 0x13, 0x14, 0x15, 0x16, 0x17,
              0x18, 0x19, 0x1a, 0x1b, 0x1c, 0x1d, 0x1e, 0x1f]"

subsection \<open>Transcripts\<close>

text \<open>
  A line of the dump is matched when the dump pattern accepts it. The address the driver
  expects on line \<open>i\<close> of a transcript is the staging address plus sixteen for every
  matched line before it.
\<close>

definition matched :: "string \<Rightarrow> bool" where
  "matched line = (ptrn_dump line \<noteq> None)"

definition expected_addr :: "string list \<Rightarrow> nat \<Rightarrow> int" where
  "expected_addr lines i = 0x90000000 + 0x10 * int (length (filter matched (take i lines)))"

text \<open>A console whose dump jumps from address A to A + 0x20, and one that answers with
  lines that are no dump lines at all.\<close>

definition st_gap :: ubootmmc where
  "st_gap = st0\<lparr>dev := \<lparr>replies = [[dump_line_0, dump_line_2]], written = []\<rparr>,
                block_size := 16\<rparr>"

definition st_noise :: ubootmmc where
  "st_noise = st0\<lparr>dev := \<lparr>replies = [[''mmc read 90000000 64 1'', ''MMC read: error'']],
                               written = []\<rparr>,
                  block_size := 16\<rparr>"

text \<open>The lines the \<open>k\<close>-th coming \<^verbatim>\<open>readlines()\<close> call will return.\<close>

definition reply :: "console \<Rightarrow> nat \<Rightarrow> string list" where
  "reply d k = (if k < length (replies d) then replies d ! k else [])"

text \<open>Transcripts of \<^verbatim>\<open>mmc info\<close> and \<^verbatim>\<open>mmc part\<close> (the console echoes the command),
  and consoles that answer with them or with an error message.\<close>

definition info_lines :: "string list" where
  "info_lines = [''mmc info'', ''Device: mmc@0'', ''Bus Width: 8-bit'', ''Rd Block Len: 512'']"

definition part_lines :: "string list" where
  "part_lines = [''mmc part'', ''Part    Start Sector    Num Sectors     UUID    Type'',
                 ''  8     100             4               9f3a-08 83'']"

definition console_ok :: console where
  "console_ok = \<lparr>replies = [info_lines, part_lines], written = []\<rparr>"

definition console_no_blocksize :: console where
  "console_no_blocksize = \<lparr>replies = [[''mmc info'', ''No MMC device available''], part_lines],
                            written = []\<rparr>"

definition console_no_partitions :: console where
  "console_no_partitions = \<lparr>replies = [info_lines, [''mmc part'', ''## Unknown partition table'']],
                             written = []\<rparr>"

subsection \<open>Paths\<close>

text \<open>
  The paths the spec means by a partition path: a slash followed by a decimal numeral
  (digits only) that is the number of a known partition.
\<close>

definition decimal_partition_path :: "ubootmmc \<Rightarrow> string \<Rightarrow> bool" where
  "decimal_partition_path st path =
     (case path of
        [] \<Rightarrow> False
      | c # ds \<Rightarrow> c = CHR ''/'' \<and> ds \<noteq> [] \<and> list_all isdigit ds \<and>
                 map_of (partitions st) (digits_val 10 ds) \<noteq> None)"

subsection \<open>Disk contents\<close>

text \<open>
  The contents of the device as a function from block numbers to blocks, and the bytes of
  \<open>len\<close> consecutive blocks from block \<open>start\<close> on.
\<close>

definition disk_blocks :: "(int \<Rightarrow> bytes) \<Rightarrow> int \<Rightarrow> int \<Rightarrow> bytes" where
  "disk_blocks D start len = concat (map D [start..start + len - 1])"



text \<open>
  The block range a \<^verbatim>\<open>read\<close> of a partition asks the cache for: the start block and
  the block count, computed as \<^verbatim>\<open>read\<close> computes them.
\<close>

definition read_range :: "ubootmmc \<Rightarrow> partition \<Rightarrow> int \<Rightarrow> int \<Rightarrow> int \<times> int" where
  "read_range st part sz offset =
     (let start_block = offset div block_size st + part_start part;
          end_byte = (if offset + sz > part_length part * block_size st
                      then part_length part * block_size st else offset + sz);
          end_block = (if end_byte mod block_size st > 0
                       then end_byte div block_size st + part_start part + 1
                       else end_byte div block_size st + part_start part)
      in (start_block, end_block - start_block))"

text \<open>The same partition with nothing cached, a console that will answer the next
  command with the dump of two blocks, and the disk those two blocks come from.\<close>

definition st_cold :: ubootmmc where
  "st_cold = st0\<lparr>dev := \<lparr>replies = [[dump_line_0, dump_line_1]], written = []\<rparr>,
                 block_size := 16,
                 partitions := [(1, \<lparr>part_number = 1, part_start = 100, part_length = 2\<rparr>)]\<rparr>"

definition disk_cold :: "int \<Rightarrow> bytes" where
  "disk_cold b = (if b = 100 then bytes_0 else bytes_1)"

section \<open>Properties\<close>

subsection \<open>Open\<close>

lemma open_next_fd_mono: "open st path flags = (r, st') \<Longrightarrow> next_fd st \<le> next_fd st'"
  by (auto simp: open_def Let_def split: if_splits)

lemma opens_above: "h \<in> set (opens st reqs) \<Longrightarrow> next_fd st < h"
proof (induction reqs arbitrary: st)
  case Nil
  then show ?case by simp
next
  case (Cons rq reqs)
  obtain path flags where rq: "rq = (path, flags)" by (cases rq)
  obtain r st' where o: "open st path flags = (r, st')" by (cases "open st path flags")
  have mono: "next_fd st \<le> next_fd st'" using o by (rule open_next_fd_mono)
  show ?case
  proof (cases r)
    case (Inl e)
    with Cons.prems rq o have "h \<in> set (opens st' reqs)" by simp
    from Cons.IH [OF this] mono show ?thesis by simp
  next
    case (Inr h')
    with o have h': "h' = next_fd st + 1" "next_fd st' = h'"
      by (auto simp: open_def Let_def split: if_splits)
    from Cons.prems rq o Inr have "h = h' \<or> h \<in> set (opens st' reqs)" by simp
    then show ?thesis
    proof
      assume "h = h'" with h' show ?thesis by simp
    next
      assume "h \<in> set (opens st' reqs)"
      from Cons.IH [OF this] mono show ?thesis by simp
    qed
  qed
qed

lemma opens_increasing: "sorted_wrt (<) (opens st reqs)"
proof (induction reqs arbitrary: st)
  case Nil
  then show ?case by simp
next
  case (Cons rq reqs)
  obtain path flags where rq: "rq = (path, flags)" by (cases rq)
  obtain r st' where o: "open st path flags = (r, st')" by (cases "open st path flags")
  show ?case
  proof (cases r)
    case (Inl e)
    with rq o Cons.IH [of st'] show ?thesis by simp
  next
    case (Inr h')
    with o have h': "next_fd st' = h'"
      by (auto simp: open_def Let_def split: if_splits)
    have "\<forall>h \<in> set (opens st' reqs). h' < h" using opens_above [of _ st' reqs] h' by auto
    with rq o Inr Cons.IH [of st'] show ?thesis by simp
  qed
qed

text \<open>
  C7. An open whose access mode is \<^verbatim>\<open>O_WRONLY\<close> or \<^verbatim>\<open>O_RDWR\<close> fails with the
  permission error \<^verbatim>\<open>EACCES\<close> and leaves the state, the handle counter included, as it
  was. A read-only open succeeds with a handle above the counter, which becomes the new
  counter. Over any sequence of opens the handles returned are strictly increasing, each
  above every handle returned before it.
\<close>

theorem open_denies_write_and_counts_up:
  "(flags AND 3 = O_WRONLY \<or> flags AND 3 = O_RDWR \<longrightarrow>
      open st path flags = (Inl (FuseOSError EACCES), st)) \<and>
   (flags AND 3 = O_RDONLY \<longrightarrow>
      (\<exists>h st'. open st path flags = (Inr h, st') \<and> next_fd st < h \<and> next_fd st' = h)) \<and>
   sorted_wrt (<) (opens st reqs) \<and> (\<forall>h \<in> set (opens st reqs). next_fd st < h)"
  using opens_increasing [of st reqs] opens_above [of _ st reqs]
  by (auto simp: open_def O_RDONLY_def O_WRONLY_def O_RDWR_def)

theorem open_denies_write_and_counts_up_witness:
  "open st0 ''/8'' 1 = (Inl (FuseOSError EACCES), st0) \<and>
   open st0 ''/8'' 2 = (Inl (FuseOSError EACCES), st0) \<and>
   (\<exists>h st'. open st0 ''/8'' 32768 = (Inr h, st') \<and> next_fd st0 < h \<and> next_fd st' = h) \<and>
   opens st0 [(''/8'', 0), (''/8'', 1), (''/8'', 32768)] = [1, 2]"
  using open_denies_write_and_counts_up [of 1 st0 "''/8''" "[(''/8'', 0), (''/8'', 1), (''/8'', 32768)]"]
        open_denies_write_and_counts_up [of 2 st0 "''/8''" "[]"]
        open_denies_write_and_counts_up [of 32768 st0 "''/8''" "[]"]
  by (simp add: O_RDONLY_def O_WRONLY_def O_RDWR_def open_def st0_def)

text \<open>
  C9. \<^verbatim>\<open>open\<close> never looks at its path: two opens that differ only in the path give the
  same result, and a read-only open of any path, one that names no partition included,
  returns the next handle. The witness opens a path for which \<^verbatim>\<open>getattr\<close> answers
  \<^verbatim>\<open>ENOENT\<close>.
\<close>

theorem open_ignores_path:
  "open st path flags = open st path' flags \<and>
   (flags AND 3 = O_RDONLY \<longrightarrow>
      open st path flags = (Inr (next_fd st + 1), st\<lparr>next_fd := next_fd st + 1\<rparr>))"
  by (simp add: open_def O_RDONLY_def O_WRONLY_def O_RDWR_def)

theorem open_ignores_path_witness:
  "getattr st0 ''/nope'' = Inl (FuseOSError ENOENT) \<and>
   open st0 ''/nope'' 0 = (Inr 1, st0\<lparr>next_fd := 1\<rparr>) \<and>
   open st0 ''/nope'' 0 = open st0 ''/'' 0"
proof -
  have g: "getattr st0 ''/nope'' = Inl (FuseOSError ENOENT)"
    by (simp add: getattr_def py_int_def isspace_def isdigit_def st0_def)
  have n: "next_fd st0 = 0" by (simp add: st0_def)
  from open_ignores_path [of st0 "''/nope''" 0 "''/''"] g n show ?thesis
    by (auto simp: O_RDONLY_def)
qed

subsection \<open>The block cache\<close>

lemma cached_bytes_simps [simp]:
  "cached_bytes cache [] = []"
  "cached_bytes cache (b # bs) = the (cache b) @ cached_bytes cache bs"
  "cached_bytes cache (xs @ ys) = cached_bytes cache xs @ cached_bytes cache ys"
  by (simp_all add: cached_bytes_def)

lemma get_loop_all_cached:
  "\<forall>b \<in> set blocks. cache b \<noteq> None \<Longrightarrow>
   get_loop cache blocks to_return None = Inr (to_return @ cached_bytes cache blocks, None)"
  by (induction blocks arbitrary: to_return) auto

lemma get_loop_started:
  "get_loop cache blocks to_return (Some r) = Inr (to_return', rs') \<Longrightarrow>
   rs' = Some r \<and> to_return' = to_return \<and> (\<forall>b \<in> set blocks. cache b = None)"
  by (induction blocks) (auto split: option.splits)

lemma get_loop_no_run:
  "get_loop cache blocks to_return None = Inr (to_return', None) \<Longrightarrow>
   (\<forall>b \<in> set blocks. cache b \<noteq> None) \<and> to_return' = to_return @ cached_bytes cache blocks"
proof (induction blocks arbitrary: to_return)
  case Nil
  then show ?case by simp
next
  case (Cons b blocks)
  show ?case
  proof (cases "cache b")
    case None
    with Cons.prems have "get_loop cache blocks to_return (Some b) = Inr (to_return', None)"
      by simp
    from get_loop_started [OF this] show ?thesis by simp
  next
    case (Some v)
    with Cons.prems have "get_loop cache blocks (to_return @ v) None = Inr (to_return', None)"
      by simp
    from Cons.IH [OF this] Some show ?thesis by simp
  qed
qed

lemma get_loop_run:
  "get_loop cache blocks to_return None = Inr (to_return', Some r) \<Longrightarrow>
   \<exists>hits rest. blocks = hits @ r # rest \<and> (\<forall>b \<in> set hits. cache b \<noteq> None) \<and>
     (\<forall>b \<in> set (r # rest). cache b = None) \<and>
     to_return' = to_return @ cached_bytes cache hits"
proof (induction blocks arbitrary: to_return)
  case Nil
  then show ?case by simp
next
  case (Cons b blocks)
  show ?case
  proof (cases "cache b")
    case None
    with Cons.prems have "get_loop cache blocks to_return (Some b) = Inr (to_return', Some r)"
      by simp
    from get_loop_started [OF this] None
    have "b # blocks = [] @ r # blocks \<and> (\<forall>b \<in> set []. cache b \<noteq> None) \<and>
          (\<forall>b \<in> set (r # blocks). cache b = None) \<and>
          to_return' = to_return @ cached_bytes cache []" by simp
    then show ?thesis by blast
  next
    case (Some v)
    with Cons.prems have "get_loop cache blocks (to_return @ v) None = Inr (to_return', Some r)"
      by simp
    from Cons.IH [OF this] obtain hits rest where
      h: "blocks = hits @ r # rest" "\<forall>b \<in> set hits. cache b \<noteq> None"
         "\<forall>b \<in> set (r # rest). cache b = None"
         "to_return' = (to_return @ v) @ cached_bytes cache hits" by blast
    with Some have "b # blocks = (b # hits) @ r # rest \<and> (\<forall>x \<in> set (b # hits). cache x \<noteq> None) \<and>
        (\<forall>b \<in> set (r # rest). cache b = None) \<and>
        to_return' = to_return @ cached_bytes cache (b # hits)" by simp
    then show ?thesis by blast
  qed
qed

lemma get_loop_error:
  "get_loop cache blocks to_return rs = Inl e \<Longrightarrow> e = UnboundLocalError"
  by (induction blocks arbitrary: to_return rs) (auto split: option.splits)

lemma upto_suffix:
  "[a..b] = xs @ r # ys \<Longrightarrow> r # ys = [r..b] \<and> xs = [a..r - 1]"
proof (induction xs arbitrary: a)
  case Nil
  then have "a \<le> b" by (cases "a \<le> b") (simp_all add: upto.simps)
  then have "[a..b] = a # [a + 1..b]" by (simp add: upto.simps)
  with Nil have "a = r" by simp
  with Nil show ?case by simp
next
  case (Cons x xs)
  then have "a \<le> b" by (cases "a \<le> b") (simp_all add: upto.simps)
  then have "[a..b] = a # [a + 1..b]" by (simp add: upto.simps)
  with Cons.prems have "x # (xs @ r # ys) = a # [a + 1..b]" by (metis append_Cons)
  then have x: "x = a" and tl: "[a + 1..b] = xs @ r # ys" by auto
  from Cons.IH [OF tl] have ih: "r # ys = [r..b]" "xs = [a + 1..r - 1]" by simp_all
  have "r \<in> set [a + 1..b]" using tl by simp
  then have "a + 1 \<le> r" by simp
  then have "[a..r - 1] = a # [a + 1..r - 1]" by (simp add: upto.simps)
  with ih x show ?case by simp
qed

lemma read_mmc_blocks_state:
  assumes "read_mmc_blocks st r m = (res, st1)"
  shows "\<exists>d. st1 = st\<lparr>dev := d\<rparr> \<and>
           written d = written (dev st) @ (if m = 0 then [] else [MmcRead r m, MdB (m * block_size st)])"
proof (cases "m = 0")
  case True
  with assms have "st1 = st\<lparr>dev := dev st\<rparr> \<and> written (dev st) = written (dev st) @ []"
    by (simp add: read_mmc_blocks_def)
  with True show ?thesis by (intro exI [of _ "dev st"]) simp
next
  case False
  with assms show ?thesis
    by (auto simp: read_mmc_blocks_def dev_readlines_def dev_write_def
             split: if_splits prod.splits sum.splits list.splits)
qed

lemma cache_loop_other:
  "b \<notin> set blocks \<Longrightarrow> cache_loop s bs d blocks c b = c b"
  by (induction blocks arbitrary: c) (auto simp: Let_def)

lemma cache_loop_in:
  "b \<in> set blocks \<Longrightarrow>
   cache_loop s bs d blocks c b = Some (py_slice d ((b - s) * bs) ((b - s) * bs + bs))"
proof (induction blocks arbitrary: c)
  case Nil
  then show ?case by simp
next
  case (Cons x blocks)
  show ?case
  proof (cases "b \<in> set blocks")
    case True
    with Cons.IH show ?thesis by (simp add: Let_def)
  next
    case False
    with Cons.prems have "b = x" by simp
    with False show ?thesis by (simp add: Let_def cache_loop_other)
  qed
qed

lemma read_and_cache_cases:
  assumes "read_and_cache_mmc_blocks st r m = (res, st')" and "m \<noteq> 0"
  shows "\<exists>d. written d = written (dev st) @ [MmcRead r m, MdB (m * block_size st)] \<and>
           ((\<exists>e. res = Inl e \<and> st' = st\<lparr>dev := d\<rparr>) \<or>
            (\<exists>f. res = Inr f \<and> read_mmc_blocks st r m = (Inr f, st\<lparr>dev := d\<rparr>) \<and>
                 st' = st\<lparr>dev := d,
                          block_cache := cache_loop r (block_size st) f [r..r + m - 1]
                                           (block_cache st)\<rparr>))"
proof -
  obtain res1 st1 where rd: "read_mmc_blocks st r m = (res1, st1)"
    by (cases "read_mmc_blocks st r m")
  from read_mmc_blocks_state [OF rd] assms(2) obtain d where
    d: "st1 = st\<lparr>dev := d\<rparr>" "written d = written (dev st) @ [MmcRead r m, MdB (m * block_size st)]"
    by auto
  show ?thesis
  proof (cases res1)
    case (Inl e)
    with assms rd d show ?thesis by (auto simp: read_and_cache_mmc_blocks_def)
  next
    case (Inr f)
    with assms rd d show ?thesis by (auto simp: read_and_cache_mmc_blocks_def)
  qed
qed

lemma get_mmc_blocks_cases:
  assumes "get_mmc_blocks st s n = (res, st')"
  obtains
    (quiet) "st' = st"
      "res = Inl UnboundLocalError \<or>
       (res = Inr (cached_bytes (block_cache st) [s..s + n - 1]) \<and>
        (\<forall>b \<in> set [s..s + n - 1]. block_cache st b \<noteq> None))"
  | (fetch) r where "s \<le> r" "r \<le> s + n - 1"
      "\<forall>b \<in> set [s..r - 1]. block_cache st b \<noteq> None"
      "\<forall>b \<in> set [r..s + n - 1]. block_cache st b = None"
      "(res, st') =
         (case read_and_cache_mmc_blocks st r (s + n - r) of
            (Inl e, st1) \<Rightarrow> (Inl e, st1)
          | (Inr f, st1) \<Rightarrow> (Inr (cached_bytes (block_cache st) [s..r - 1] @ f), st1))"
proof (cases "n = 0")
  case True
  with assms have "st' = st" "res = Inr []" by (simp_all add: get_mmc_blocks_def)
  with True show ?thesis by (intro quiet) simp_all
next
  case False
  show ?thesis
  proof (cases "get_loop (block_cache st) [s..s + n - 1] [] None")
    case (Inl e)
    with assms False get_loop_error [OF Inl] show ?thesis
      by (intro quiet) (simp_all add: get_mmc_blocks_def)
  next
    case (Inr p)
    obtain tr rs where p: "p = (tr, rs)" by (cases p)
    show ?thesis
    proof (cases rs)
      case None
      from assms False Inr p None have "st' = st" "res = Inr tr"
        by (simp_all add: get_mmc_blocks_def)
      with get_loop_no_run [OF Inr [unfolded p None]]
      show ?thesis by (intro quiet) simp_all
    next
      case (Some r)
      from get_loop_run [OF Inr [unfolded p Some]] obtain hits rest where
        h: "[s..s + n - 1] = hits @ r # rest" "\<forall>b \<in> set hits. block_cache st b \<noteq> None"
           "\<forall>b \<in> set (r # rest). block_cache st b = None"
           "tr = [] @ cached_bytes (block_cache st) hits" by blast
      from upto_suffix [OF h(1)] have u: "r # rest = [r..s + n - 1]" "hits = [s..r - 1]"
        by simp_all
      have "r \<in> set [s..s + n - 1]" using h(1) by simp
      then have b: "s \<le> r" "r \<le> s + n - 1" by simp_all
      show ?thesis
        using assms False Inr p Some h(2,3,4) u b
        by (intro fetch [of r]) (simp_all add: get_mmc_blocks_def)
    qed
  qed
qed

lemma get_mmc_blocks_keeps_cache:
  assumes "get_mmc_blocks st s n = (res, st')" and "block_cache st b = Some v"
  shows "block_cache st' b = Some v"
  using assms(1)
proof (cases rule: get_mmc_blocks_cases)
  case quiet
  with assms(2) show ?thesis by simp
next
  case (fetch r)
  obtain res1 st1 where rc: "read_and_cache_mmc_blocks st r (s + n - r) = (res1, st1)"
    by (cases "read_and_cache_mmc_blocks st r (s + n - r)")
  from fetch(2) have m: "s + n - r \<noteq> 0" by simp
  from fetch(4) assms(2) have nb: "b \<notin> set [r..r + (s + n - r) - 1]" by auto
  from read_and_cache_cases [OF rc m] nb assms(2) have "block_cache st1 b = Some v"
    by (auto simp: cache_loop_other)
  moreover from fetch(5) rc have "st' = st1" by (cases res1) simp_all
  ultimately show ?thesis by simp
qed

lemma get_mmc_blocks_fields:
  assumes "get_mmc_blocks st s n = (res, st')"
  shows "block_size st' = block_size st \<and> partitions st' = partitions st \<and> next_fd st' = next_fd st"
  using assms
proof (cases rule: get_mmc_blocks_cases)
  case quiet
  then show ?thesis by simp
next
  case (fetch r)
  obtain res1 st1 where rc: "read_and_cache_mmc_blocks st r (s + n - r) = (res1, st1)"
    by (cases "read_and_cache_mmc_blocks st r (s + n - r)")
  from fetch(2) have m: "s + n - r \<noteq> 0" by simp
  from fetch(5) rc have "st' = st1" by (cases res1) simp_all
  with read_and_cache_cases [OF rc m] show ?thesis by auto
qed

lemma get_mmc_blocks_written:
  assumes "get_mmc_blocks st s n = (res, st')"
  shows "\<exists>cmds. written (dev st') = written (dev st) @ cmds \<and>
           (\<forall>r m. MmcRead r m \<in> set cmds \<longrightarrow>
              (\<forall>b. r \<le> b \<and> b < r + m \<longrightarrow> block_cache st b = None))"
  using assms
proof (cases rule: get_mmc_blocks_cases)
  case quiet
  then show ?thesis by simp
next
  case (fetch r)
  obtain res1 st1 where rc: "read_and_cache_mmc_blocks st r (s + n - r) = (res1, st1)"
    by (cases "read_and_cache_mmc_blocks st r (s + n - r)")
  from fetch(2) have m: "s + n - r \<noteq> 0" by simp
  from fetch(5) rc have st': "st' = st1" by (cases res1) simp_all
  from read_and_cache_cases [OF rc m] st' have
    w: "written (dev st') = written (dev st) @ [MmcRead r (s + n - r), MdB ((s + n - r) * block_size st)]"
    by auto
  from fetch(4) have "\<forall>b. r \<le> b \<and> b < r + (s + n - r) \<longrightarrow> block_cache st b = None" by simp
  with w show ?thesis by auto
qed

lemma get_mmc_blocks_step:
  assumes "get_mmc_blocks st s n = (res, st')"
  shows "(new_commands st st' = [] \<or>
          (\<exists>r m. new_commands st st' = [MmcRead r m, MdB (m * block_size st)] \<and>
             (\<forall>b \<in> set [r..r + m - 1]. block_cache st b = None) \<and>
             (\<not> isl res \<longrightarrow> (\<forall>b \<in> set [r..r + m - 1]. block_cache st' b \<noteq> None))))"
  using assms
proof (cases rule: get_mmc_blocks_cases)
  case quiet
  then show ?thesis by (simp add: new_commands_def)
next
  case (fetch r)
  let ?m = "s + n - r"
  obtain res1 st1 where rc: "read_and_cache_mmc_blocks st r ?m = (res1, st1)"
    by (cases "read_and_cache_mmc_blocks st r ?m")
  from fetch(2) have m: "?m \<noteq> 0" by simp
  from fetch(5) rc have st': "st' = st1" and isl: "isl res = isl res1" by (cases res1; simp)+
  from fetch(4) have none: "\<forall>b \<in> set [r..r + ?m - 1]. block_cache st b = None" by simp
  from read_and_cache_cases [OF rc m] obtain d where
    w: "written d = written (dev st) @ [MmcRead r ?m, MdB (?m * block_size st)]" and
    c: "(\<exists>e. res1 = Inl e \<and> st1 = st\<lparr>dev := d\<rparr>) \<or>
        (\<exists>f. res1 = Inr f \<and> read_mmc_blocks st r ?m = (Inr f, st\<lparr>dev := d\<rparr>) \<and>
             st1 = st\<lparr>dev := d,
                      block_cache := cache_loop r (block_size st) f [r..r + ?m - 1]
                                       (block_cache st)\<rparr>)" by blast
  from c w st' have nc: "new_commands st st' = [MmcRead r ?m, MdB (?m * block_size st)]"
    by (auto simp: new_commands_def)
  from c st' isl have "\<not> isl res \<longrightarrow> (\<forall>b \<in> set [r..r + ?m - 1]. block_cache st' b \<noteq> None)"
    by (auto simp: cache_loop_in)
  with nc none show ?thesis by blast
qed

lemma read_via_get:
  assumes "py_int (drop 1 path) = Some part_num"
    and "map_of (partitions st) part_num = Some part"
    and "offset < part_length part * block_size st"
    and "block_size st \<noteq> 0"
  shows "read st path sz offset =
     (let bs = block_size st;
          start_block = offset div bs + part_start part;
          end_byte = min (offset + sz) (part_length part * bs);
          end_block = end_byte div bs + part_start part + (if end_byte mod bs > 0 then 1 else 0)
      in case get_mmc_blocks st start_block (end_block - start_block) of
           (Inl e, st') \<Rightarrow> (Inl (if e = ValueError then FuseOSError ENOENT else e), st')
         | (Inr block_data, st') \<Rightarrow>
             (Inr (py_slice_to (py_slice_from block_data (offset mod bs)) (end_byte - offset)),
              st'))"
  using assms by (simp add: read_def Let_def min_def)

lemma read_cases:
  assumes "read st path sz offset = (res, st')"
  shows "(st' = st \<and> (res = Inr [] \<or> isl res)) \<or>
         (\<exists>s n res1. get_mmc_blocks st s n = (res1, st') \<and> isl res = isl res1)"
proof (cases "\<exists>part_num part. py_int (drop 1 path) = Some part_num \<and>
    map_of (partitions st) part_num = Some part \<and>
    offset < part_length part * block_size st \<and> block_size st \<noteq> 0")
  case False
  with assms have "st' = st \<and> (res = Inr [] \<or> isl res)"
    by (auto simp: read_def split: option.splits if_splits)
  then show ?thesis ..
next
  case True
  then obtain part_num part where h: "py_int (drop 1 path) = Some part_num"
    "map_of (partitions st) part_num = Some part"
    "offset < part_length part * block_size st" "block_size st \<noteq> 0" by blast
  define bs where "bs = block_size st"
  define start_block where "start_block = offset div bs + part_start part"
  define end_byte where "end_byte = min (offset + sz) (part_length part * bs)"
  define end_block where
    "end_block = end_byte div bs + part_start part + (if end_byte mod bs > 0 then 1 else 0)"
  obtain res1 st1 where g: "get_mmc_blocks st start_block (end_block - start_block) = (res1, st1)"
    by (cases "get_mmc_blocks st start_block (end_block - start_block)")
  from read_via_get [OF h, of sz] g assms have "st' = st1 \<and> isl res = isl res1"
    unfolding bs_def [symmetric] Let_def start_block_def [symmetric] end_byte_def [symmetric]
      end_block_def [symmetric]
    by (cases res1) auto
  with g show ?thesis by blast
qed

lemma serve_step:
  assumes "serve st rq = (res, st')"
  shows "(\<forall>b v. block_cache st b = Some v \<longrightarrow> block_cache st' b = Some v) \<and>
         (new_commands st st' = [] \<or>
          (\<exists>r m. new_commands st st' = [MmcRead r m, MdB (m * block_size st)] \<and>
             (\<forall>b \<in> set [r..r + m - 1]. block_cache st b = None) \<and>
             (\<not> isl res \<longrightarrow> (\<forall>b \<in> set [r..r + m - 1]. block_cache st' b \<noteq> None))))"
proof (cases rq)
  case (GetBlocks s n)
  with assms have g: "get_mmc_blocks st s n = (res, st')" by simp
  from get_mmc_blocks_step [OF g] get_mmc_blocks_keeps_cache [OF g] show ?thesis by blast
next
  case (Read path sz offset)
  with assms have "read st path sz offset = (res, st')" by simp
  from read_cases [OF this] show ?thesis
  proof
    assume "st' = st \<and> (res = Inr [] \<or> isl res)"
    then show ?thesis by (simp add: new_commands_def)
  next
    assume "\<exists>s n res1. get_mmc_blocks st s n = (res1, st') \<and> isl res = isl res1"
    then obtain s n res1 where g: "get_mmc_blocks st s n = (res1, st')" and i: "isl res = isl res1"
      by blast
    from get_mmc_blocks_step [OF g] get_mmc_blocks_keeps_cache [OF g] i show ?thesis by simp
  qed
qed

lemma serve_all_keeps_cache:
  "block_cache st b = Some v \<Longrightarrow> block_cache (serve_all st reqs) b = Some v"
proof (induction reqs arbitrary: st)
  case Nil
  then show ?case by simp
next
  case (Cons rq reqs)
  obtain res st' where s: "serve st rq = (res, st')" by (cases "serve st rq")
  from serve_step [OF s] Cons.prems have "block_cache st' b = Some v" by blast
  from Cons.IH [OF this] s show ?case by simp
qed

lemma fetched_blocks_fresh:
  "distinct (fetched_blocks st reqs) \<and>
   (\<forall>b \<in> set (fetched_blocks st reqs). block_cache st b = None)"
proof (induction reqs arbitrary: st)
  case Nil
  then show ?case by simp
next
  case (Cons rq reqs)
  obtain res st' where s: "serve st rq = (res, st')" by (cases "serve st rq")
  note ih = Cons.IH [of st']
  from serve_step [OF s] have keep: "\<And>b. block_cache st' b = None \<Longrightarrow> block_cache st b = None"
    by (metis option.exhaust)
  show ?case
  proof (cases res)
    case (Inl e)
    with s ih keep show ?thesis by auto
  next
    case (Inr data)
    from serve_step [OF s] have
      "new_commands st st' = [] \<or>
       (\<exists>r m. new_commands st st' = [MmcRead r m, MdB (m * block_size st)] \<and>
          (\<forall>b \<in> set [r..r + m - 1]. block_cache st b = None) \<and>
          (\<not> isl res \<longrightarrow> (\<forall>b \<in> set [r..r + m - 1]. block_cache st' b \<noteq> None)))" by blast
    then show ?thesis
    proof
      assume "new_commands st st' = []"
      with s Inr ih keep show ?thesis by auto
    next
      assume "\<exists>r m. new_commands st st' = [MmcRead r m, MdB (m * block_size st)] \<and>
          (\<forall>b \<in> set [r..r + m - 1]. block_cache st b = None) \<and>
          (\<not> isl res \<longrightarrow> (\<forall>b \<in> set [r..r + m - 1]. block_cache st' b \<noteq> None))"
      then obtain r m where nc: "new_commands st st' = [MmcRead r m, MdB (m * block_size st)]"
        and none: "\<forall>b \<in> set [r..r + m - 1]. block_cache st b = None"
        and some: "\<forall>b \<in> set [r..r + m - 1]. block_cache st' b \<noteq> None"
        using Inr by auto
      from ih some have disj: "set [r..r + m - 1] \<inter> set (fetched_blocks st' reqs) = {}"
        by auto
      have f: "fetched_blocks st (rq # reqs) = [r..r + m - 1] @ fetched_blocks st' reqs"
        using s Inr nc by simp
      show ?thesis unfolding f using ih disj none keep by auto
    qed
  qed
qed

lemma ptrn_dump_line_0:
  "ptrn_dump dump_line_0 =
     Some (''90000000'', ''00 01 02 03 04 05 06 07 08 09 0a 0b 0c 0d 0e 0f'')"
  by code_simp

text \<open>Whenever a block missing from the cache comes before a cached block of the
  request, the request raises and the state is as before.\<close>

lemma get_loop_pending:
  "\<exists>b \<in> set blocks. cache b \<noteq> None \<Longrightarrow>
   get_loop cache blocks to_return (Some r) = Inl UnboundLocalError"
  by (induction blocks) (auto split: option.splits)

lemma get_loop_miss_then_hit:
  "cache m = None \<Longrightarrow> \<exists>b \<in> set ys. cache b \<noteq> None \<Longrightarrow>
   get_loop cache (xs @ m # ys) to_return rs = Inl UnboundLocalError"
proof (induction xs arbitrary: to_return rs)
  case Nil
  then show ?case using get_loop_pending [of ys cache]
    by (cases rs) auto
next
  case (Cons x xs)
  then show ?case
    by (cases "cache x"; cases rs) auto
qed

lemma get_mmc_blocks_miss_before_hit:
  assumes "start \<le> i" and "i < j" and "j \<le> start + len - 1"
    and "block_cache st i = None" and "block_cache st j \<noteq> None"
  shows "get_mmc_blocks st start len = (Inl UnboundLocalError, st)"
proof -
  from assms(1-3) have "[start..start + len - 1] = [start..i - 1] @ i # [i + 1..start + len - 1]"
    by (intro upto_split3) simp_all
  moreover from assms(2,3,5) have "\<exists>b \<in> set [i + 1..start + len - 1]. block_cache st b \<noteq> None"
    by auto
  ultimately have "get_loop (block_cache st) [start..start + len - 1] [] None =
      Inl UnboundLocalError"
    using get_loop_miss_then_hit [of "block_cache st" i "[i + 1..start + len - 1]"
        "[start..i - 1]" "[]" None] assms(4) by simp
  moreover from assms(1-3) have "len \<noteq> 0" by simp
  ultimately show ?thesis by (simp add: get_mmc_blocks_def)
qed

text \<open>
  C1. The interleaved request of the claim: blocks 2 and 3 are cached and blocks 0 to 5
  are asked for. The scan reaches block 2 with the run starting at block 0 pending, and
  the statement that should flush the run raises \<^verbatim>\<open>UnboundLocalError\<close>: no bytes are
  returned and nothing has been sent to the console.
\<close>

theorem get_mmc_blocks_interleaved_raises:
  "get_mmc_blocks st_23 0 6 = (Inl UnboundLocalError, st_23) \<and> written (dev st_23) = []"
  by (simp add: get_mmc_blocks_def st_23_def st0_def upto.simps)

text \<open>
  C10. Whatever requests are served, a block that is in the cache stays there with the
  same bytes; and every run that a request fetches (every \<^verbatim>\<open>mmc read\<close> command it
  writes) names only blocks that were absent from the cache when the request began.
\<close>

theorem cache_entries_never_change:
  "(\<forall>b v. block_cache st b = Some v \<longrightarrow> block_cache (serve_all st reqs) b = Some v) \<and>
   (\<forall>r m. MmcRead r m \<in> set (new_commands st (snd (serve st rq))) \<longrightarrow>
      (\<forall>b \<in> set [r..r + m - 1]. block_cache st b = None))"
proof -
  obtain res st' where s: "serve st rq = (res, st')" by (cases "serve st rq")
  from serve_step [OF s] s serve_all_keeps_cache [of st _ _ reqs] show ?thesis by auto
qed

theorem cache_entries_never_change_witness:
  "block_cache st_16 100 = Some block_a \<and>
   block_cache (serve_all st_16 [GetBlocks 100 2, Read ''/8'' 20 10]) 100 = Some block_a \<and>
   MmcRead 101 1 \<in> set (new_commands st_16 (snd (serve st_16 (GetBlocks 100 2)))) \<and>
   block_cache st_16 101 = None"
proof -
  have c: "block_cache st_16 100 = Some block_a" by (simp add: st_16_def)
  have u: "[100..101] = [100::int, 101]" "[101..101] = [101::int]"
    by (simp_all add: upto.simps)
  have n: "new_commands st_16 (snd (serve st_16 (GetBlocks 100 2))) = [MmcRead 101 1, MdB 16]"
    by (simp add: new_commands_def get_mmc_blocks_def st_16_def st0_def u
        read_and_cache_mmc_blocks_def read_mmc_blocks_def dev_write_def dev_readlines_def
        ptrn_dump_line_0 isspace_def digits_val_def digit_val_def Let_def)
  from cache_entries_never_change
         [of st_16 "[GetBlocks 100 2, Read ''/8'' 20 10]" "GetBlocks 100 2"] c n u
  show ?thesis by simp
qed

subsection \<open>Repeated requests\<close>

lemma py_slice_nonneg:
  assumes "0 \<le> i" "0 \<le> j"
  shows "py_slice xs i j = take (nat j - nat i) (drop (nat i) xs)"
proof (cases "nat i \<le> length xs")
  case True
  with assms have a: "py_clamp (length xs) i = nat i" by (simp add: py_clamp_def)
  from assms have b: "py_clamp (length xs) j = min (nat j) (length xs)" by (simp add: py_clamp_def)
  have "take (min (nat j) (length xs) - nat i) (drop (nat i) xs) =
        take (min (nat j - nat i) (length (drop (nat i) xs))) (drop (nat i) xs)"
    by (simp add: min_diff)
  also have "\<dots> = take (nat j - nat i) (drop (nat i) xs)" by (simp add: min_def)
  finally show ?thesis by (simp add: py_slice_def a b Let_def)
next
  case False
  with assms show ?thesis by (simp add: py_slice_def py_clamp_def Let_def)
qed

lemma slices_concat:
  assumes "0 < bs"
  shows "concat (map (\<lambda>b. py_slice f ((b - r) * bs) ((b - r) * bs + bs)) [r..r + int k - 1]) =
         take (k * nat bs) f"
proof (induction k)
  case 0
  then show ?case by simp
next
  case (Suc k)
  have u: "[r..r + int (Suc k) - 1] = [r..r + int k - 1] @ [r + int k]"
    using upto_rec2 [of r "r + int k"] by simp
  have "py_slice f (int k * bs) (int k * bs + bs) = take (nat bs) (drop (k * nat bs) f)"
    using assms by (simp add: py_slice_nonneg nat_mult_distrib nat_add_distrib)
  with Suc u show ?case by (simp add: take_add [symmetric] add.commute)
qed

lemma cached_bytes_cong:
  "\<forall>b \<in> set blocks. c1 b = c2 b \<Longrightarrow> cached_bytes c1 blocks = cached_bytes c2 blocks"
  by (induction blocks) simp_all

lemma length_cached_bytes:
  "\<forall>b \<in> set blocks. \<exists>v. cache b = Some v \<and> int (length v) = bs \<Longrightarrow>
   int (length (cached_bytes cache blocks)) = int (length blocks) * bs"
  by (induction blocks) (auto simp: algebra_simps)

lemma get_mmc_blocks_all_cached:
  assumes "\<forall>b \<in> set [s..s + n - 1]. block_cache st b \<noteq> None"
  shows "get_mmc_blocks st s n = (Inr (cached_bytes (block_cache st) [s..s + n - 1]), st)"
proof (cases "n = 0")
  case True
  then show ?thesis by (simp add: get_mmc_blocks_def)
next
  case False
  with get_loop_all_cached [OF assms, of "[]"] show ?thesis by (simp add: get_mmc_blocks_def)
qed

lemma get_mmc_blocks_repeat:
  assumes g: "get_mmc_blocks st s n = (Inr d, st')"
  shows "\<exists>d'. get_mmc_blocks st' s n = (Inr d', st') \<and>
           (0 < block_size st \<longrightarrow> prefix d' d \<and>
              ((\<forall>b v. block_cache st b = Some v \<longrightarrow> int (length v) = block_size st) \<and>
               int (length d) \<le> n * block_size st \<longrightarrow> d' = d))"
  using g
proof (cases rule: get_mmc_blocks_cases)
  case quiet
  with g show ?thesis by auto
next
  case (fetch r)
  let ?m = "s + n - r"
  let ?bs = "block_size st"
  let ?hits = "cached_bytes (block_cache st) [s..r - 1]"
  obtain res1 st1 where rc: "read_and_cache_mmc_blocks st r ?m = (res1, st1)"
    by (cases "read_and_cache_mmc_blocks st r ?m")
  from fetch(2) have m: "?m \<noteq> 0" by simp
  from fetch(5) rc obtain f where f: "res1 = Inr f" "st' = st1" "d = ?hits @ f"
    by (cases res1) auto
  from read_and_cache_cases [OF rc m] f obtain d0 where
    st': "st' = st\<lparr>dev := d0,
                   block_cache := cache_loop r ?bs f [r..r + ?m - 1] (block_cache st)\<rparr>"
    by auto
  have low: "\<forall>b \<in> set [s..r - 1]. block_cache st' b = block_cache st b"
    by (simp add: st' cache_loop_other)
  have high: "\<forall>b \<in> set [r..s + n - 1].
      block_cache st' b = Some (py_slice f ((b - r) * ?bs) ((b - r) * ?bs + ?bs))"
    by (simp add: st' cache_loop_in)
  have split: "[s..s + n - 1] = [s..r - 1] @ [r..s + n - 1]"
    using upto_split1 [of s r "s + n - 1"] fetch(1,2) by simp
  have all: "\<forall>b \<in> set [s..s + n - 1]. block_cache st' b \<noteq> None"
    unfolding split using low high fetch(3) by auto
  have hi_bytes: "cached_bytes (block_cache st') [r..s + n - 1] =
      concat (map (\<lambda>b. py_slice f ((b - r) * ?bs) ((b - r) * ?bs + ?bs)) [r..s + n - 1])"
    unfolding cached_bytes_def using high by (intro arg_cong [where f = concat] map_cong) auto
  have d': "cached_bytes (block_cache st') [s..s + n - 1] =
      ?hits @ concat (map (\<lambda>b. py_slice f ((b - r) * ?bs) ((b - r) * ?bs + ?bs)) [r..s + n - 1])"
    unfolding split using cached_bytes_cong [OF low] hi_bytes by simp
  have rep: "get_mmc_blocks st' s n = (Inr (cached_bytes (block_cache st') [s..s + n - 1]), st')"
    by (rule get_mmc_blocks_all_cached [OF all])
  have "0 < ?bs \<longrightarrow> prefix (cached_bytes (block_cache st') [s..s + n - 1]) d \<and>
          ((\<forall>b v. block_cache st b = Some v \<longrightarrow> int (length v) = ?bs) \<and>
           int (length d) \<le> n * ?bs \<longrightarrow> cached_bytes (block_cache st') [s..s + n - 1] = d)"
  proof (intro impI conjI)
    assume bs: "0 < ?bs"
    have idx: "[r..s + n - 1] = [r..r + int (nat ?m) - 1]" using fetch(2) by simp
    have "concat (map (\<lambda>b. py_slice f ((b - r) * ?bs) ((b - r) * ?bs + ?bs)) [r..s + n - 1]) =
          take (nat ?m * nat ?bs) f"
      unfolding idx by (rule slices_concat [OF bs])
    with d' have cut:
      "cached_bytes (block_cache st') [s..s + n - 1] = ?hits @ take (nat ?m * nat ?bs) f"
      by simp
    show "prefix (cached_bytes (block_cache st') [s..s + n - 1]) d"
      unfolding cut f(3) by (simp add: take_is_prefix)
    assume full: "(\<forall>b v. block_cache st b = Some v \<longrightarrow> int (length v) = ?bs) \<and>
           int (length d) \<le> n * ?bs"
    with fetch(3) have "\<forall>b \<in> set [s..r - 1]. \<exists>v. block_cache st b = Some v \<and> int (length v) = ?bs"
      by auto
    from length_cached_bytes [OF this] fetch(1)
    have lh: "int (length ?hits) = (r - s) * ?bs" by simp
    from full f(3) lh have "int (length f) \<le> n * ?bs - (r - s) * ?bs" by simp
    also have "\<dots> = ?m * ?bs" by (simp add: algebra_simps)
    finally have "int (length f) \<le> ?m * ?bs" .
    then have "length f \<le> nat ?m * nat ?bs"
      using bs fetch(2) by (simp add: nat_mult_distrib [symmetric] le_nat_iff)
    with cut f(3) show "cached_bytes (block_cache st') [s..s + n - 1] = d" by simp
  qed
  with rep show ?thesis by blast
qed

lemma ptrn_dump_line_1:
  "ptrn_dump dump_line_1 =
     Some (''90000010'', ''10 11 12 13 14 15 16 17 18 19 1a 1b 1c 1d 1e 1f'')"
  by code_simp

lemmas eval_get = get_mmc_blocks_def read_and_cache_mmc_blocks_def read_mmc_blocks_def
  dev_write_def dev_readlines_def ptrn_dump_line_0 ptrn_dump_line_1 isspace_def digits_val_def
  digit_val_def Let_def py_slice_def py_clamp_def upto.simps

text \<open>
  C3, as amended. When a request \<^verbatim>\<open>get_mmc_blocks(start, length)\<close> has returned, the
  same request made again returns without touching the state: nothing is written to the
  console and nothing is read from it. With a positive block size its bytes are a prefix
  of the first answer, and they are the first answer itself when every block cached
  beforehand held \<open>block_size\<close> bytes and the first answer was no longer than
  \<open>length * block_size\<close> bytes. Over any sequence of requests the blocks of the runs
  fetched are pairwise distinct and were absent from the cache at the start: a block is
  fetched at most once.
\<close>

theorem repeated_get_uses_cache:
  "(get_mmc_blocks st s n = (Inr d, st') \<longrightarrow>
      (\<exists>d'. get_mmc_blocks st' s n = (Inr d', st') \<and>
         (0 < block_size st \<longrightarrow> prefix d' d \<and>
            ((\<forall>b v. block_cache st b = Some v \<longrightarrow> int (length v) = block_size st) \<and>
             int (length d) \<le> n * block_size st \<longrightarrow> d' = d)))) \<and>
   distinct (fetched_blocks st reqs) \<and>
   (\<forall>b \<in> set (fetched_blocks st reqs). block_cache st b = None)"
  using get_mmc_blocks_repeat [of st s n d st'] fetched_blocks_fresh [of st reqs] by blast

text \<open>
  The claim as stated fails where the console answers with more than it was asked for:
  one block of sixteen bytes is requested, two dump lines come back, all 32 bytes are
  returned, sixteen are cached, and the repeated request returns those sixteen.
\<close>

theorem repeated_get_differs_counterexample:
  "fst (get_mmc_blocks st_over 100 1) = Inr (bytes_0 @ bytes_1) \<and>
   fst (get_mmc_blocks (snd (get_mmc_blocks st_over 100 1)) 100 1) = Inr bytes_0 \<and>
   bytes_0 @ bytes_1 \<noteq> bytes_0"
  by (simp add: eval_get st_over_def st0_def bytes_0_def bytes_1_def)

theorem repeated_get_uses_cache_witness:
  "get_mmc_blocks st_16 100 2 = (Inr (block_a @ bytes_0), snd (get_mmc_blocks st_16 100 2)) \<and>
   get_mmc_blocks (snd (get_mmc_blocks st_16 100 2)) 100 2 =
     (Inr (block_a @ bytes_0), snd (get_mmc_blocks st_16 100 2)) \<and>
   fetched_blocks st_16 [GetBlocks 100 2, GetBlocks 100 2] = [101] \<and>
   block_cache st_16 101 = None"
proof -
  let ?st' = "snd (get_mmc_blocks st_16 100 2)"
  have "fst (get_mmc_blocks st_16 100 2) = Inr (block_a @ bytes_0)"
    by (simp add: eval_get st_16_def st0_def bytes_0_def block_a_def)
  then have g: "get_mmc_blocks st_16 100 2 = (Inr (block_a @ bytes_0), ?st')"
    by (metis prod.collapse)
  have bs: "0 < block_size st_16" by (simp add: st_16_def)
  have full: "\<forall>b v. block_cache st_16 b = Some v \<longrightarrow> int (length v) = block_size st_16"
    by (simp add: st_16_def block_a_def)
  have len: "int (length (block_a @ bytes_0)) \<le> 2 * block_size st_16"
    by (simp add: st_16_def block_a_def bytes_0_def)
  have f: "fetched_blocks st_16 [GetBlocks 100 2, GetBlocks 100 2] = [101]"
    by (simp add: eval_get new_commands_def st_16_def st0_def)
  note inst = repeated_get_uses_cache
         [of st_16 100 2 "block_a @ bytes_0" ?st' "[GetBlocks 100 2, GetBlocks 100 2]"]
  from inst have "\<forall>b \<in> set (fetched_blocks st_16 [GetBlocks 100 2, GetBlocks 100 2]).
      block_cache st_16 b = None" by blast
  then have fresh: "block_cache st_16 101 = None" unfolding f by simp
  from inst g bs full len
  have "get_mmc_blocks ?st' 100 2 = (Inr (block_a @ bytes_0), ?st')" by blast
  with g f fresh show ?thesis by blast
qed

subsection \<open>Reading blocks from the console\<close>

lemma dump_loop_desync:
  "\<exists>i < length lines. \<exists>g1 g2. ptrn_dump (lines ! i) = Some (g1, g2) \<and>
      digits_val 16 g1 \<noteq> nextaddr + 0x10 * int (length (filter matched (take i lines))) \<Longrightarrow>
   \<exists>a b. dump_loop nextaddr blockdata lines = Inl (RuntimeError (AddressMismatch a b)) \<and> a \<noteq> b"
proof (induction lines arbitrary: nextaddr blockdata)
  case Nil
  then show ?case by simp
next
  case (Cons line lines)
  from Cons.prems obtain i g1 g2 where i: "i < length (line # lines)"
    "ptrn_dump ((line # lines) ! i) = Some (g1, g2)"
    "digits_val 16 g1 \<noteq> nextaddr + 0x10 * int (length (filter matched (take i (line # lines))))"
    by blast
  show ?case
  proof (cases "ptrn_dump line")
    case None
    with i(2) obtain j where j: "i = Suc j" by (cases i) auto
    from None have "\<not> matched line" by (simp add: matched_def)
    with i j have "\<exists>i < length lines. \<exists>g1 g2. ptrn_dump (lines ! i) = Some (g1, g2) \<and>
        digits_val 16 g1 \<noteq> nextaddr + 0x10 * int (length (filter matched (take i lines)))"
      by auto
    from Cons.IH [OF this] None show ?thesis by simp
  next
    case (Some g)
    obtain h1 h2 where g: "g = (h1, h2)" by (cases g)
    show ?thesis
    proof (cases "digits_val 16 h1 = nextaddr")
      case False
      with Some g show ?thesis by simp
    next
      case True
      from Some have m: "matched line" by (simp add: matched_def)
      from i(2,3) Some g True obtain j where j: "i = Suc j" by (cases i) auto
      with i m have "\<exists>i < length lines. \<exists>g1 g2. ptrn_dump (lines ! i) = Some (g1, g2) \<and>
          digits_val 16 g1 \<noteq> (nextaddr + 0x10) + 0x10 * int (length (filter matched (take i lines)))"
        by (auto simp: algebra_simps)
      from Cons.IH [OF this] Some g True show ?thesis by simp
    qed
  qed
qed

lemma dump_loop_no_match:
  "\<forall>line \<in> set lines. ptrn_dump line = None \<Longrightarrow> dump_loop nextaddr blockdata lines = Inr blockdata"
  by (induction lines) simp_all

text \<open>
  C4. A read of a non-zero number of blocks scans the transcript the console answers
  with, expecting the staging address 0x90000000 on the first matched line and sixteen
  more after every matched line. If some matched line carries another address than the
  expected one, the read raises the address error (expected and found address differ)
  and returns no bytes; if no line matches at all, it raises
  \<^verbatim>\<open>'Could not read any memory output'\<close>. (A read of zero blocks returns before
  anything is sent or read.)
\<close>

theorem read_mmc_blocks_desync:
  assumes "len \<noteq> 0" and "fst (dev_readlines (dev st)) = lines"
  shows "((\<exists>i < length lines. \<exists>g1 g2. ptrn_dump (lines ! i) = Some (g1, g2) \<and>
             digits_val 16 g1 \<noteq> expected_addr lines i) \<longrightarrow>
          (\<exists>a b. fst (read_mmc_blocks st start len) = Inl (RuntimeError (AddressMismatch a b)) \<and>
                 a \<noteq> b)) \<and>
         ((\<forall>line \<in> set lines. ptrn_dump line = None) \<longrightarrow>
          fst (read_mmc_blocks st start len) = Inl (RuntimeError NoMemoryOutput))"
proof -
  from assms(2) have rd: "fst (dev_readlines (dev_write (MdB (len * block_size st))
      (dev_write (MmcRead start len) (dev st)))) = lines"
    by (auto simp: dev_readlines_def dev_write_def split: list.splits)
  show ?thesis
  proof (intro conjI impI)
    assume "\<exists>i < length lines. \<exists>g1 g2. ptrn_dump (lines ! i) = Some (g1, g2) \<and>
             digits_val 16 g1 \<noteq> expected_addr lines i"
    then have "\<exists>a b. dump_loop 0x90000000 [] lines = Inl (RuntimeError (AddressMismatch a b)) \<and> a \<noteq> b"
      unfolding expected_addr_def by (rule dump_loop_desync)
    with assms(1) rd
    show "\<exists>a b. fst (read_mmc_blocks st start len) = Inl (RuntimeError (AddressMismatch a b)) \<and> a \<noteq> b"
      by (auto simp: read_mmc_blocks_def split: prod.splits)
  next
    assume "\<forall>line \<in> set lines. ptrn_dump line = None"
    then have "dump_loop 0x90000000 [] lines = Inr []" by (rule dump_loop_no_match)
    with assms(1) rd
    show "fst (read_mmc_blocks st start len) = Inl (RuntimeError NoMemoryOutput)"
      by (auto simp: read_mmc_blocks_def split: prod.splits)
  qed
qed

lemma ptrn_dump_line_2:
  "ptrn_dump dump_line_2 =
     Some (''90000020'', ''20 21 22 23 24 25 26 27 28 29 2a 2b 2c 2d 2e 2f'')"
  by code_simp

lemma ptrn_dump_noise:
  "ptrn_dump ''mmc read 90000000 64 1'' = None" "ptrn_dump ''MMC read: error'' = None"
  by code_simp+

theorem read_mmc_blocks_desync_witness:
  "fst (read_mmc_blocks st_gap 100 2) = Inl (RuntimeError (AddressMismatch 0x90000010 0x90000020)) \<and>
   fst (read_mmc_blocks st_noise 100 1) = Inl (RuntimeError NoMemoryOutput)"
proof -
  have l: "fst (dev_readlines (dev st_gap)) = [dump_line_0, dump_line_2]"
    by (simp add: st_gap_def dev_readlines_def)
  have e: "expected_addr [dump_line_0, dump_line_2] (Suc 0) = 0x90000010"
    by (simp add: expected_addr_def matched_def ptrn_dump_line_0)
  have "\<exists>i < length [dump_line_0, dump_line_2]. \<exists>g1 g2.
      ptrn_dump ([dump_line_0, dump_line_2] ! i) = Some (g1, g2) \<and>
      digits_val 16 g1 \<noteq> expected_addr [dump_line_0, dump_line_2] i"
    by (intro exI [of _ "Suc 0"]) (simp add: ptrn_dump_line_2 e digits_val_def digit_val_def)
  with read_mmc_blocks_desync [of 2 st_gap "[dump_line_0, dump_line_2]" 100, OF _ l]
  obtain a b where ab: "fst (read_mmc_blocks st_gap 100 2) = Inl (RuntimeError (AddressMismatch a b))"
    by auto
  have g: "fst (read_mmc_blocks st_gap 100 2) =
      Inl (RuntimeError (AddressMismatch 0x90000010 0x90000020))"
    using ab
    by (simp add: read_mmc_blocks_def st_gap_def st0_def dev_write_def dev_readlines_def
        ptrn_dump_line_0 ptrn_dump_line_2 digits_val_def digit_val_def isspace_def)
  have l2: "fst (dev_readlines (dev st_noise)) = [''mmc read 90000000 64 1'', ''MMC read: error'']"
    by (simp add: st_noise_def dev_readlines_def)
  from read_mmc_blocks_desync [of 1 st_noise _ 100, OF _ l2] ptrn_dump_noise
  have "fst (read_mmc_blocks st_noise 100 1) = Inl (RuntimeError NoMemoryOutput)" by simp
  with g show ?thesis by simp
qed

subsection \<open>Start-up\<close>

lemma info_loop_no_line:
  "\<forall>line \<in> set lines. \<not> prefix ''Rd Block Len:'' line \<Longrightarrow> info_loop bs lines = Inr bs"
  by (induction lines) simp_all

lemma part_loop_no_row:
  "\<forall>line \<in> set lines. ptrn_part line = None \<Longrightarrow> part_loop ps lines = ps"
  by (induction lines) simp_all

lemma dev_readlines_reply:
  "dev_readlines (dev_write c d) = (lines, d') \<Longrightarrow> lines = reply d 0 \<and> reply d' 0 = reply d 1"
  by (cases "replies d")
     (auto simp: dev_readlines_def dev_write_def reply_def nth_Cons split: nat.splits)

lemma read_mmc_partitions_no_blocksize:
  assumes "\<forall>line \<in> set (reply d 0). \<not> prefix ''Rd Block Len:'' line"
  shows "read_mmc_partitions d = Inl AttributeError"
proof -
  obtain info d1 where r: "dev_readlines (dev_write MmcInfo d) = (info, d1)"
    by (cases "dev_readlines (dev_write MmcInfo d)")
  from dev_readlines_reply [OF r] assms have "info_loop None info = Inr None"
    by (simp add: info_loop_no_line)
  with r show ?thesis by (simp add: read_mmc_partitions_def)
qed

lemma read_mmc_partitions_no_rows:
  assumes "\<forall>line \<in> set (reply d 1). ptrn_part line = None"
  shows "\<exists>e. read_mmc_partitions d = Inl e"
proof -
  obtain info d1 where r: "dev_readlines (dev_write MmcInfo d) = (info, d1)"
    by (cases "dev_readlines (dev_write MmcInfo d)")
  obtain rows d2 where r2: "dev_readlines (dev_write MmcPart d1) = (rows, d2)"
    by (cases "dev_readlines (dev_write MmcPart d1)")
  from dev_readlines_reply [OF r] dev_readlines_reply [OF r2] have "rows = reply d 1" by simp
  with assms have "part_loop [] rows = []" by (simp add: part_loop_no_row)
  with r r2 show ?thesis
    by (auto simp: read_mmc_partitions_def split: sum.splits option.splits)
qed

text \<open>
  C5. If no line of the answer to \<^verbatim>\<open>mmc info\<close> starts with the block size label, or no
  line of the answer to \<^verbatim>\<open>mmc part\<close> matches the partition row pattern, then
  \<^verbatim>\<open>read_mmc_partitions\<close> raises, the constructor raises the same exception, and
  \<^verbatim>\<open>main\<close> ends with it: no server is handed to FUSE.
\<close>

theorem startup_fails_without_block_size_or_partitions:
  assumes "(\<forall>line \<in> set (reply d 0). \<not> prefix ''Rd Block Len:'' line) \<or>
           (\<forall>line \<in> set (reply d 1). ptrn_part line = None)"
  shows "\<exists>e. read_mmc_partitions d = Inl e \<and> init d = Inl e \<and> main d = Aborted e"
proof -
  from assms read_mmc_partitions_no_blocksize [of d] read_mmc_partitions_no_rows [of d]
  obtain e where "read_mmc_partitions d = Inl e" by blast
  then show ?thesis by (simp add: init_def main_def)
qed

lemma ptrn_part_no_rows:
  "ptrn_part ''mmc part'' = None" "ptrn_part ''## Unknown partition table'' = None"
  by code_simp+

theorem startup_fails_without_block_size_or_partitions_witness:
  "main console_no_blocksize = Aborted AttributeError \<and>
   main console_no_partitions = Aborted (RuntimeError NoPartitions)"
proof -
  have a: "\<forall>line \<in> set (reply console_no_blocksize 0). \<not> prefix ''Rd Block Len:'' line"
    by (simp add: reply_def console_no_blocksize_def)
  have b: "\<forall>line \<in> set (reply console_no_partitions 1). ptrn_part line = None"
    by (simp add: reply_def console_no_partitions_def ptrn_part_no_rows)
  from startup_fails_without_block_size_or_partitions [of console_no_blocksize] a
  obtain e where e: "read_mmc_partitions console_no_blocksize = Inl e"
    "main console_no_blocksize = Aborted e" by blast
  from startup_fails_without_block_size_or_partitions [of console_no_partitions] b
  obtain e' where e': "read_mmc_partitions console_no_partitions = Inl e'"
    "main console_no_partitions = Aborted e'" by blast
  have "read_mmc_partitions console_no_blocksize = Inl AttributeError"
    by (simp add: read_mmc_partitions_def console_no_blocksize_def dev_write_def dev_readlines_def)
  moreover have "read_mmc_partitions console_no_partitions = Inl (RuntimeError NoPartitions)"
    by (simp add: read_mmc_partitions_def console_no_partitions_def dev_write_def
        dev_readlines_def info_lines_def ptrn_part_no_rows isdigit_def digits_val_def digit_val_def)
  ultimately show ?thesis using e e' by simp
qed

text \<open>For comparison, the start-up of the spec's end-to-end scenario succeeds.\<close>

lemma ptrn_part_rows:
  "ptrn_part ''Part    Start Sector    Num Sectors     UUID    Type'' = None"
  "ptrn_part ''  8     100             4               9f3a-08 83'' = Some (8, 100, 4)"
  by code_simp+

lemma init_console_ok:
  "init console_ok =
     Inr \<lparr>dev = \<lparr>replies = [], written = [MmcInfo, MmcPart]\<rparr>, block_cache = Map.empty,
          next_fd = 0, block_size = 512,
          partitions = [(8, \<lparr>part_number = 8, part_start = 100, part_length = 4\<rparr>)]\<rparr>"
  by (simp add: init_def read_mmc_partitions_def console_ok_def dev_write_def dev_readlines_def
      info_lines_def part_lines_def ptrn_part_no_rows ptrn_part_rows isdigit_def digits_val_def
      digit_val_def)

subsection \<open>Attributes\<close>

lemma isdigit_not_space: "isdigit c \<Longrightarrow> \<not> isspace c \<and> c \<noteq> CHR ''+'' \<and> c \<noteq> CHR ''-''"
  by (auto simp: isdigit_def isspace_def)

lemma takeWhile_all: "list_all P xs \<Longrightarrow> takeWhile P xs = xs \<and> dropWhile P xs = []"
  by (induction xs) simp_all

lemma py_int_digits:
  assumes "ds \<noteq> []" and "list_all isdigit ds"
  shows "py_int ds = Some (digits_val 10 ds)"
proof -
  from assms obtain c cs where ds: "ds = c # cs" by (cases ds) auto
  with assms(2) have c: "isdigit c" by simp
  from isdigit_not_space [OF c] ds have d1: "dropWhile isspace ds = ds" by simp
  from takeWhile_all [OF assms(2)] assms(1) isdigit_not_space [OF c] ds d1
  show ?thesis by (simp add: py_int_def)
qed

text \<open>
  C6, as amended. \<^verbatim>\<open>getattr\<close> answers \<^verbatim>\<open>ENOENT\<close> exactly when the path is not
  \<^verbatim>\<open>/\<close> and the text after the path's first character is not accepted by
  \<^verbatim>\<open>int()\<close> as the number of a known partition. The root is a directory. A path
  whose tail \<^verbatim>\<open>int()\<close> reads as a known partition number is a regular file of size
  \<open>length * block_size\<close>; every slash followed by a decimal numeral of a known partition
  is such a path. \<^verbatim>\<open>getattr\<close> only reads the state, so repeated calls give the same
  answer.
\<close>

theorem getattr_not_found_iff:
  "(getattr st path = Inl (FuseOSError ENOENT) \<longleftrightarrow>
      path \<noteq> ''/'' \<and> (\<forall>n. py_int (drop 1 path) = Some n \<longrightarrow> map_of (partitions st) n = None)) \<and>
   (\<exists>dir. getattr st ''/'' = Inr dir \<and> S_ISDIR (st_mode dir)) \<and>
   (path \<noteq> ''/'' \<and> py_int (drop 1 path) = Some n \<and> map_of (partitions st) n = Some part \<longrightarrow>
      (\<exists>file. getattr st path = Inr file \<and> S_ISREG (st_mode file) \<and>
         st_size file = part_length part * block_size st)) \<and>
   (decimal_partition_path st path \<longrightarrow>
      path \<noteq> ''/'' \<and> py_int (drop 1 path) = Some (digits_val 10 (drop 1 path)) \<and>
      map_of (partitions st) (digits_val 10 (drop 1 path)) \<noteq> None)"
proof (intro conjI)
  show "getattr st path = Inl (FuseOSError ENOENT) \<longleftrightarrow>
      path \<noteq> ''/'' \<and> (\<forall>n. py_int (drop 1 path) = Some n \<longrightarrow> map_of (partitions st) n = None)"
    by (auto simp: getattr_def split: option.splits)
  show "\<exists>dir. getattr st ''/'' = Inr dir \<and> S_ISDIR (st_mode dir)"
    by (simp add: getattr_def S_ISDIR_def S_IFDIR_def S_IFMT_def)
  show "path \<noteq> ''/'' \<and> py_int (drop 1 path) = Some n \<and> map_of (partitions st) n = Some part \<longrightarrow>
      (\<exists>file. getattr st path = Inr file \<and> S_ISREG (st_mode file) \<and>
         st_size file = part_length part * block_size st)"
    by (simp add: getattr_def S_ISREG_def S_IFREG_def S_IFMT_def)
  show "decimal_partition_path st path \<longrightarrow>
      path \<noteq> ''/'' \<and> py_int (drop 1 path) = Some (digits_val 10 (drop 1 path)) \<and>
      map_of (partitions st) (digits_val 10 (drop 1 path)) \<noteq> None"
    by (cases path) (auto simp: decimal_partition_path_def py_int_digits)
qed

text \<open>
  The claim as stated fails on a path that is no slash-and-numeral but that
  \<^verbatim>\<open>int()\<close> accepts: \<^verbatim>\<open>int(' 8')\<close> is 8, so \<^verbatim>\<open>'/ 8'\<close> is reported as the
  regular file of partition 8.
\<close>

theorem getattr_lenient_counterexample:
  "''/ 8'' \<noteq> ''/'' \<and> \<not> decimal_partition_path st0 ''/ 8'' \<and>
   getattr st0 ''/ 8'' =
     Inr \<lparr>st_mode = 33060, st_nlink = 1, st_size = 2048, st_ctime = 0, st_mtime = 0,
          st_atime = 0\<rparr>"
  by (simp add: decimal_partition_path_def getattr_def py_int_def isspace_def isdigit_def
      digits_val_def digit_val_def st0_def S_IFREG_def)

theorem getattr_not_found_iff_witness:
  "getattr st0 ''/nope'' = Inl (FuseOSError ENOENT) \<and>
   getattr st0 ''/9'' = Inl (FuseOSError ENOENT) \<and>
   decimal_partition_path st0 ''/8'' \<and>
   (\<exists>file. getattr st0 ''/8'' = Inr file \<and> S_ISREG (st_mode file) \<and> st_size file = 4 * 512)"
proof -
  note inst = getattr_not_found_iff
  have p1: "py_int (drop 1 ''/nope'') = None"
    by (simp add: py_int_def isspace_def isdigit_def)
  have p2: "py_int (drop 1 ''/9'') = Some 9"
    by (simp add: py_int_def isspace_def isdigit_def digits_val_def digit_val_def)
  have m2: "map_of (partitions st0) 9 = None" by (simp add: st0_def)
  have d: "decimal_partition_path st0 ''/8''"
    by (simp add: decimal_partition_path_def isdigit_def digits_val_def digit_val_def st0_def)
  have p3: "py_int (drop 1 ''/8'') = Some 8"
    by (simp add: py_int_def isspace_def isdigit_def digits_val_def digit_val_def)
  have m3: "map_of (partitions st0) 8 = Some \<lparr>part_number = 8, part_start = 100, part_length = 4\<rparr>"
    by (simp add: st0_def)
  from inst [of st0 "''/nope''"] p1 have a: "getattr st0 ''/nope'' = Inl (FuseOSError ENOENT)"
    by simp
  from inst [of st0 "''/9''"] p2 m2 have b: "getattr st0 ''/9'' = Inl (FuseOSError ENOENT)"
    by simp
  from inst [of st0 "''/8''" 8 "\<lparr>part_number = 8, part_start = 100, part_length = 4\<rparr>"] p3 m3
  have c: "\<exists>file. getattr st0 ''/8'' = Inr file \<and> S_ISREG (st_mode file) \<and> st_size file = 4 * 512"
    by (simp add: st0_def)
  from a b c d show ?thesis by blast
qed

subsection \<open>Reading byte ranges\<close>

lemma span_arith:
  fixes bs offset E pl :: int
  assumes bs: "0 < bs" and o: "0 \<le> offset" and lt: "offset < E" and le: "E \<le> pl * bs"
  defines "k \<equiv> E div bs - offset div bs + (if E mod bs > 0 then 1 else 0)"
  shows "0 < k" and "offset div bs + k \<le> pl" and "offset mod bs + (E - offset) \<le> k * bs"
    and "0 \<le> offset div bs"
proof -
  have m1: "0 \<le> E mod bs" "E mod bs < bs" "0 \<le> offset mod bs" "offset mod bs < bs"
    using bs by simp_all
  have e1: "E = (E div bs) * bs + E mod bs" by simp
  have e2: "offset = (offset div bs) * bs + offset mod bs" by simp
  have mono: "offset div bs \<le> E div bs" using lt bs by (simp add: zdiv_mono1)
  show "0 \<le> offset div bs" using o bs by (simp add: pos_imp_zdiv_nonneg_iff)
  show "0 < k"
  proof (cases "E mod bs > 0")
    case True
    with mono show ?thesis by (simp add: k_def)
  next
    case False
    with m1(1) have "E mod bs = 0" by linarith
    with e1 have "E = (E div bs) * bs" by simp
    with lt have "offset < (E div bs) * bs" by simp
    have "offset div bs < E div bs"
    proof (rule ccontr)
      assume "\<not> offset div bs < E div bs"
      then have "E div bs \<le> offset div bs" by simp
      then have "(E div bs) * bs \<le> (offset div bs) * bs" using bs by (simp add: mult_right_mono)
      with e2 m1(3) \<open>offset < (E div bs) * bs\<close> show False by linarith
    qed
    with False show ?thesis by (simp add: k_def)
  qed
  show "offset div bs + k \<le> pl"
  proof (cases "E mod bs > 0")
    case True
    have "E div bs < pl"
    proof (rule ccontr)
      assume "\<not> E div bs < pl"
      then have "pl \<le> E div bs" by simp
      then have "pl * bs \<le> (E div bs) * bs" using bs by (simp add: mult_right_mono)
      with e1 True le show False by linarith
    qed
    with True show ?thesis by (simp add: k_def)
  next
    case False
    have "E div bs \<le> (pl * bs) div bs" using le bs by (rule zdiv_mono1)
    with bs have "E div bs \<le> pl" by simp
    with False show ?thesis by (simp add: k_def)
  qed
  show "offset mod bs + (E - offset) \<le> k * bs"
  proof -
    have "offset mod bs + (E - offset) = E - (offset div bs) * bs" using e2 by linarith
    also have "\<dots> = (E div bs - offset div bs) * bs + E mod bs"
      using e1 by (simp add: algebra_simps)
    also have "\<dots> \<le> k * bs"
    proof (cases "E mod bs > 0")
      case True
      then have "k * bs = (E div bs - offset div bs) * bs + bs"
        by (simp add: k_def algebra_simps)
      with m1(2) show ?thesis by linarith
    next
      case False
      then have "k * bs = (E div bs - offset div bs) * bs" by (simp add: k_def)
      with False show ?thesis by linarith
    qed
    finally show ?thesis .
  qed
qed

lemma length_concat_uniform:
  "\<forall>b. length (D b) = n \<Longrightarrow> length (concat (map D xs)) = length xs * n"
  by (induction xs) simp_all

lemma length_disk_blocks:
  assumes "\<forall>b. int (length (D b)) = bs" and "0 \<le> k"
  shows "length (disk_blocks D s k) = nat k * nat bs"
proof -
  from assms(1) have "\<forall>b. length (D b) = nat bs" by (metis nat_int)
  from length_concat_uniform [OF this] assms(2) show ?thesis by (simp add: disk_blocks_def)
qed

lemma disk_blocks_split:
  assumes "0 \<le> j" and "0 \<le> k"
  shows "disk_blocks D s (j + k) = disk_blocks D s j @ disk_blocks D (s + j) k"
proof (cases "k = 0")
  case True
  then show ?thesis by (simp add: disk_blocks_def)
next
  case False
  with assms have "[s..s + (j + k) - 1] = [s..s + j - 1] @ [s + j..s + j + k - 1]"
    using upto_split1 [of s "s + j" "s + (j + k) - 1"] by (simp add: algebra_simps)
  then show ?thesis by (simp add: disk_blocks_def)
qed

lemma disk_blocks_window:
  assumes bs: "0 < bs" and D: "\<forall>b. int (length (D b)) = bs"
    and sb: "ps \<le> sb" and k: "0 < k" and top: "sb + k \<le> ps + pl"
    and so: "0 \<le> so" and bl: "0 \<le> bl" and fit: "so + bl \<le> k * bs"
  shows "take (nat bl) (drop (nat so) (disk_blocks D sb k)) =
         take (nat bl) (drop (nat ((sb - ps) * bs + so)) (disk_blocks D ps pl))"
proof -
  let ?A = "disk_blocks D ps (sb - ps)"
  let ?X = "disk_blocks D sb k"
  let ?R = "disk_blocks D (sb + k) (pl - (sb - ps) - k)"
  have "pl = (sb - ps) + (k + (pl - (sb - ps) - k))" by simp
  then have "disk_blocks D ps pl = disk_blocks D ps ((sb - ps) + (k + (pl - (sb - ps) - k)))"
    by simp
  also have "\<dots> = ?A @ disk_blocks D sb (k + (pl - (sb - ps) - k))"
    using disk_blocks_split [of "sb - ps" "k + (pl - (sb - ps) - k)" D ps] sb k top by simp
  also have "disk_blocks D sb (k + (pl - (sb - ps) - k)) = ?X @ ?R"
    using disk_blocks_split [of k "pl - (sb - ps) - k" D sb] k top by simp
  finally have pb: "disk_blocks D ps pl = ?A @ ?X @ ?R" .
  have lA: "length ?A = nat (sb - ps) * nat bs" using length_disk_blocks [OF D] sb by simp
  have lX: "length ?X = nat k * nat bs" using length_disk_blocks [OF D] k by simp
  have idx: "nat ((sb - ps) * bs + so) = length ?A + nat so"
    using sb so bs by (simp add: lA nat_add_distrib nat_mult_distrib)
  have "int (nat so + nat bl) \<le> int (nat k * nat bs)"
    using so bl fit k bs by (simp add: nat_mult_distrib [symmetric])
  then have fitn: "nat so + nat bl \<le> length ?X" unfolding lX by linarith
  have "drop (nat ((sb - ps) * bs + so)) (disk_blocks D ps pl) = drop (nat so) (?X @ ?R)"
    unfolding pb idx by simp
  also have "\<dots> = drop (nat so) ?X @ ?R" using fitn by simp
  finally have "take (nat bl) (drop (nat ((sb - ps) * bs + so)) (disk_blocks D ps pl)) =
      take (nat bl) (drop (nat so) ?X @ ?R)" by simp
  also have "\<dots> = take (nat bl) (drop (nat so) ?X)" using fitn by simp
  finally show ?thesis by simp
qed

lemma py_slices_nonneg:
  "0 \<le> i \<Longrightarrow> 0 \<le> j \<Longrightarrow> py_slice_to (py_slice_from xs i) j = take (nat j) (drop (nat i) xs)"
  by (simp add: py_slice_to_def py_slice_from_def py_clamp_def min_def)




text \<open>\<open>read_range\<close> is the range \<^verbatim>\<open>read\<close> passes to \<^verbatim>\<open>get_mmc_blocks\<close>.\<close>

lemma read_requests_range:
  assumes "py_int (drop 1 path) = Some part_num"
    and "map_of (partitions st) part_num = Some part"
    and "offset < part_length part * block_size st"
    and "block_size st \<noteq> 0"
  shows "read st path sz offset =
     (case get_mmc_blocks st (fst (read_range st part sz offset))
             (snd (read_range st part sz offset)) of
        (Inl e, st') \<Rightarrow> (Inl (if e = ValueError then FuseOSError ENOENT else e), st')
      | (Inr block_data, st') \<Rightarrow>
          (Inr (py_slice_to (py_slice_from block_data (offset mod block_size st))
                  ((if offset + sz > part_length part * block_size st
                    then part_length part * block_size st else offset + sz) - offset)), st'))"
  using assms by (simp add: read_def read_range_def Let_def)

text \<open>
  C2. Take a known partition, a positive block size, an offset that is not negative and a
  positive size, and a disk \<open>D\<close> of blocks of \<open>block_size\<close> bytes. A read at or beyond
  the partition's byte size returns the empty string and leaves the state alone. For a
  read below it, assume that the cache delivers the disk's blocks for the one block range
  this read asks it for (from the cache, from the console, or from both); then the read
  returns exactly \<open>min(size, length * block_size - offset)\<close> bytes: the partition's
  bytes from byte \<open>offset\<close> on. The witness reads from an empty cache, the console
  delivering both blocks.
\<close>

theorem read_returns_partition_bytes:
  assumes p: "py_int (drop 1 path) = Some part_num"
    and m: "map_of (partitions st) part_num = Some part"
    and bs: "0 < block_size st" and o: "0 \<le> offset" and sz: "0 < sz"
    and D: "\<forall>b. int (length (D b)) = block_size st"
    and deliver: "offset < part_length part * block_size st \<longrightarrow>
        fst (get_mmc_blocks st (fst (read_range st part sz offset))
               (snd (read_range st part sz offset))) =
          Inr (disk_blocks D (fst (read_range st part sz offset))
                 (snd (read_range st part sz offset)))"
  shows "(part_length part * block_size st \<le> offset \<longrightarrow>
            read st path sz offset = (Inr [], st)) \<and>
         (offset < part_length part * block_size st \<longrightarrow>
            (\<exists>data. fst (read st path sz offset) = Inr data \<and>
               int (length data) = min sz (part_length part * block_size st - offset) \<and>
               data = take (nat (min sz (part_length part * block_size st - offset)))
                        (drop (nat offset)
                           (disk_blocks D (part_start part) (part_length part)))))"
proof (intro conjI impI)
  assume "part_length part * block_size st \<le> offset"
  with p m show "read st path sz offset = (Inr [], st)" by (simp add: read_def)
next
  assume lt: "offset < part_length part * block_size st"
  define B where "B = block_size st"
  define P where "P = part_length part * B"
  define E where "E = min (offset + sz) P"
  define k where "k = E div B - offset div B + (if E mod B > 0 then 1 else 0)"
  define sb where "sb = offset div B + part_start part"
  have B: "0 < B" "block_size st \<noteq> 0" using bs by (simp_all add: B_def)
  have ltE: "offset < E" and leE: "E \<le> part_length part * B"
    using lt sz by (simp_all add: E_def P_def B_def)
  note ar = span_arith [OF B(1) o ltE leE, folded k_def]
  have pl: "0 \<le> part_length part"
  proof (rule ccontr)
    assume "\<not> 0 \<le> part_length part"
    then have "part_length part * B \<le> 0" using B(1) by (simp add: mult_le_0_iff)
    with lt o show False by (simp add: B_def)
  qed
  have rng: "part_start part \<le> sb \<and> 0 < k \<and> sb + k \<le> part_start part + part_length part"
    using ar by (simp add: sb_def)
  have cnt: "E div B + part_start part + (if E mod B > 0 then 1 else 0) - sb = k"
    by (simp add: k_def sb_def)
  have "read_range st part sz offset = (sb, k)"
    unfolding cnt [symmetric] by (simp add: read_range_def Let_def sb_def E_def P_def B_def min_def)
  with deliver lt have g: "fst (get_mmc_blocks st sb k) = Inr (disk_blocks D sb k)" by simp
  have nn: "0 \<le> offset mod B" "0 \<le> E - offset" using B(1) ltE by simp_all
  have r: "fst (read st path sz offset) =
      Inr (take (nat (E - offset)) (drop (nat (offset mod B)) (disk_blocks D sb k)))"
    using read_via_get [OF p m lt B(2), of sz] g py_slices_nonneg [OF nn]
    unfolding B_def [symmetric] Let_def P_def [symmetric] E_def [symmetric]
      sb_def [symmetric] cnt
    by (simp split: prod.splits sum.splits)
  have D': "\<forall>b. int (length (D b)) = B" using D by (simp add: B_def)
  have off: "(sb - part_start part) * B + offset mod B = offset" by (simp add: sb_def)
  have win: "take (nat (E - offset)) (drop (nat (offset mod B)) (disk_blocks D sb k)) =
      take (nat (E - offset)) (drop (nat offset)
        (disk_blocks D (part_start part) (part_length part)))"
    using disk_blocks_window [OF B(1) D', of "part_start part" sb k "part_length part"
        "offset mod B" "E - offset"] rng nn ar(3) off by simp
  have Eo: "E - offset = min sz (P - offset)" by (simp add: E_def)
  have lenPB: "length (disk_blocks D (part_start part) (part_length part)) =
      nat (part_length part) * nat B" by (rule length_disk_blocks [OF D' pl])
  have "int (nat (part_length part) * nat B) = P" using pl B(1) by (simp add: P_def)
  with lenPB have "int (length (disk_blocks D (part_start part) (part_length part))) = P"
    by simp
  then have len: "int (length (take (nat (E - offset)) (drop (nat offset)
      (disk_blocks D (part_start part) (part_length part))))) = E - offset"
    using o nn(2) Eo by simp
  show "\<exists>data. fst (read st path sz offset) = Inr data \<and>
      int (length data) = min sz (part_length part * block_size st - offset) \<and>
      data = take (nat (min sz (part_length part * block_size st - offset)))
               (drop (nat offset) (disk_blocks D (part_start part) (part_length part)))"
    using r win len Eo by (simp add: P_def B_def)
qed

theorem read_returns_partition_bytes_witness:
  "block_cache st_cold 100 = None \<and> block_cache st_cold 101 = None \<and>
   fst (read st_cold ''/1'' 100 11) = Inr (drop 11 (bytes_0 @ bytes_1)) \<and>
   read st_cold ''/1'' 100 32 = (Inr [], st_cold)"
proof -
  let ?part = "\<lparr>part_number = 1, part_start = 100, part_length = 2\<rparr>"
  have c: "block_cache st_cold 100 = None" "block_cache st_cold 101 = None"
    by (simp_all add: st_cold_def st0_def)
  have p: "py_int (drop 1 ''/1'') = Some 1"
    by (simp add: py_int_def isspace_def isdigit_def digits_val_def digit_val_def)
  have m: "map_of (partitions st_cold) 1 = Some ?part" by (simp add: st_cold_def)
  have b: "0 < block_size st_cold" by (simp add: st_cold_def)
  have D: "\<forall>b. int (length (disk_cold b)) = block_size st_cold"
    by (simp add: disk_cold_def bytes_0_def bytes_1_def st_cold_def)
  have rr: "read_range st_cold ?part 100 11 = (100, 2)"
    by (simp add: read_range_def st_cold_def)
  have pb: "disk_blocks disk_cold 100 2 = bytes_0 @ bytes_1"
    by (simp add: disk_blocks_def disk_cold_def upto.simps)
  have g: "fst (get_mmc_blocks st_cold 100 2) = Inr (bytes_0 @ bytes_1)"
    by (simp add: eval_get st_cold_def st0_def bytes_0_def bytes_1_def)
  have deliver: "(11::int) < part_length ?part * block_size st_cold \<longrightarrow>
      fst (get_mmc_blocks st_cold (fst (read_range st_cold ?part 100 11))
             (snd (read_range st_cold ?part 100 11))) =
        Inr (disk_blocks disk_cold (fst (read_range st_cold ?part 100 11))
               (snd (read_range st_cold ?part 100 11)))"
    by (simp add: rr g pb)
  from read_returns_partition_bytes [OF p m b _ _ D deliver]
  have "fst (read st_cold ''/1'' 100 11) =
      Inr (take (nat (min 100 (2 * block_size st_cold - 11))) (drop 11 (bytes_0 @ bytes_1)))"
    by (auto simp: st_cold_def pb)
  then have a: "fst (read st_cold ''/1'' 100 11) = Inr (drop 11 (bytes_0 @ bytes_1))"
    by (simp add: st_cold_def bytes_0_def bytes_1_def)
  have "(32::int) < part_length ?part * block_size st_cold \<longrightarrow>
      fst (get_mmc_blocks st_cold (fst (read_range st_cold ?part 100 32))
             (snd (read_range st_cold ?part 100 32))) =
        Inr (disk_blocks disk_cold (fst (read_range st_cold ?part 100 32))
               (snd (read_range st_cold ?part 100 32)))"
    by (simp add: st_cold_def)
  from read_returns_partition_bytes [OF p m b _ _ D this]
  have "read st_cold ''/1'' 100 32 = (Inr [], st_cold)" by (simp add: st_cold_def)
  with a c show ?thesis by simp
qed

end
